theory Spec2Isabelle
  imports Main "HOL-Library.AList"
begin

text \<open>
  A shallow embedding of \<open>deploy.js\<close>, the script that synchronises the directory
  \<open>dist/\<close> with an S3 bucket: its functions \<open>contentType\<close>, \<open>iterS3\<close>, \<open>iterFS\<close> and
  \<open>main\<close>, and the library functions they call (Node's \<open>path\<close>, \<open>JSON.parse\<close>). The
  definitions come first, a section for each function of the source; their properties
  follow.
\<close>

section \<open>Node's \<open>path\<close> module (POSIX flavour)\<close>

text \<open>
  \<open>deploy.js\<close> calls \<open>path.extname\<close>, \<open>path.basename\<close> and \<open>path.join\<close>.
  They are library functions; the definitions below follow the documented behaviour of
  Node's POSIX implementation. A path is a \<open>string\<close>, the separator is \<open>/\<close>.
\<close>

definition is_slash :: "char \<Rightarrow> bool" where
  "is_slash c = (c = CHR ''/'')"

definition strip_trailing_slashes :: "string \<Rightarrow> string" where
  "strip_trailing_slashes p = rev (dropWhile is_slash (rev p))"

text \<open>The last path component: trailing separators are skipped, then everything back to
  the previous separator is taken.\<close>

definition last_component :: "string \<Rightarrow> string" where
  "last_component p = rev (takeWhile (\<lambda>c. \<not> is_slash c) (dropWhile is_slash (rev p)))"

text \<open>What precedes the last component (with its separator).\<close>

definition dir_part :: "string \<Rightarrow> string" where
  "dir_part p = rev (dropWhile (\<lambda>c. \<not> is_slash c) (dropWhile is_slash (rev p)))"

text \<open>The characters of a component that come after its last dot.\<close>

definition after_last_dot :: "string \<Rightarrow> string" where
  "after_last_dot seg = rev (takeWhile (\<lambda>c. c \<noteq> CHR ''.'') (rev seg))"

text \<open>
  \<open>path.extname(p)\<close>: the extension of the last component, from its last dot to its end;
  empty when the component has no dot, when the only dot is its first character
  (a dot file), and when the component is \<open>..\<close>.
\<close>

definition extname :: "string \<Rightarrow> string" where
  "extname p =
     (let seg = last_component p; ext = after_last_dot seg
      in if CHR ''.'' \<notin> set seg then ''''
         else if length seg = Suc (length ext) then ''''
         else if seg = ''..'' then ''''
         else CHR ''.'' # ext)"

text \<open>
  \<open>path.basename(p, suffix)\<close>: the last component of \<open>p\<close>, without \<open>suffix\<close> when the
  component ends in it and is longer than it. Node matches the suffix backwards while it
  scans for the component; when the component is used up before the suffix is, the slice
  runs to the end of the path (trailing separators included).
\<close>

definition basename :: "string \<Rightarrow> string \<Rightarrow> string" where
  "basename p suffix =
     (let seg = last_component p
      in if suffix \<noteq> [] \<and> length suffix \<le> length p then
           (if suffix = p then ''''
            else if length suffix < length seg
                    \<and> drop (length seg - length suffix) seg = suffix
                 then take (length seg - length suffix) seg
            else if length seg < length suffix
                    \<and> drop (length suffix - length seg) suffix = seg
                 then seg @ takeWhile is_slash (rev p)
            else seg)
         else seg)"

section \<open>Content types\<close>

text \<open>
  \<open>contentType(name)\<close> of \<open>deploy.js\<close>: a \<open>.gz\<close> extension is removed with
  \<open>path.basename(name, path.extname(name))\<close>, then a \<open>switch\<close> on the extension of what
  is left picks the type. Every branch returns; nothing throws.
\<close>

definition contentType :: "string \<Rightarrow> string" where
  "contentType name =
     (let name1 = (if extname name = ''.gz'' then basename name (extname name) else name);
          e = extname name1
      in if e = '''' \<or> e = ''.htm'' \<or> e = ''.html'' then ''text/html''
         else if e = ''.png'' then ''image/png''
         else if e = ''.jpg'' \<or> e = ''.jpeg'' then ''image/jpeg''
         else if e = ''.js'' then ''text/javascript''
         else if e = ''.css'' then ''text/css''
         else if e = ''.svg'' then ''image/svg+xml''
         else ''application/octet-stream'')"

text \<open>
  The table of the specification, and its reading of "the compression suffix is stripped":
  the last three characters of the name proper (the name without trailing separators) go.
\<close>

definition mime_table :: "(string \<times> string) list" where
  "mime_table =
     [('''', ''text/html''), (''.htm'', ''text/html''), (''.html'', ''text/html''),
      (''.png'', ''image/png''), (''.jpg'', ''image/jpeg''), (''.jpeg'', ''image/jpeg''),
      (''.js'', ''text/javascript''), (''.css'', ''text/css''),
      (''.svg'', ''image/svg+xml'')]"

definition mime_of_ext :: "string \<Rightarrow> string" where
  "mime_of_ext e = (case map_of mime_table e of Some t \<Rightarrow> t | None \<Rightarrow> ''application/octet-stream'')"

definition strip_gz :: "string \<Rightarrow> string" where
  "strip_gz name =
     (if extname name = ''.gz''
      then (let body = strip_trailing_slashes name in take (length body - 3) body)
      else name)"

section \<open>\<open>JSON.parse\<close>\<close>

text \<open>
  \<open>main\<close> decodes the entity tag of a remote object with \<open>JSON.parse\<close>. The
  definitions below follow the JSON grammar that \<open>JSON.parse\<close> accepts: white space is
  space, tab, line feed and carriage return; a value is a string, a number, an array, an
  object, or one of \<open>true\<close>, \<open>false\<close>, \<open>null\<close>. A text that is not JSON makes
  \<open>JSON.parse\<close> throw a \<open>SyntaxError\<close>: the result \<open>None\<close>.

  A decoded string is a list of UTF-16 code units (a \<open>\\u\<close> escape gives any of them);
  a number keeps its lexeme, since its value is a floating point number. The tests on
  lengths in \<open>parse_elems\<close> and \<open>parse_members\<close> serve the termination proof and never
  fail (\<open>parse_elems_unguarded\<close>, \<open>parse_members_unguarded\<close>).
\<close>

datatype json =
    JNull
  | JBool bool
  | JNumber string
  | JString "nat list"
  | JArray "json list"
  | JObject "(nat list \<times> json) list"

definition is_ws :: "char \<Rightarrow> bool" where
  "is_ws c = (c = CHR '' '' \<or> c = CHR 0x09 \<or> c = CHR 0x0A \<or> c = CHR 0x0D)"

definition skip_ws :: "string \<Rightarrow> string" where
  "skip_ws cs = dropWhile is_ws cs"

definition is_digit :: "char \<Rightarrow> bool" where
  "is_digit c = (48 \<le> (of_char c :: nat) \<and> (of_char c :: nat) \<le> 57)"

definition hex_val :: "char \<Rightarrow> nat option" where
  "hex_val c =
     (let n = (of_char c :: nat)
      in if 48 \<le> n \<and> n \<le> 57 then Some (n - 48)
         else if 97 \<le> n \<and> n \<le> 102 then Some (n - 87)
         else if 65 \<le> n \<and> n \<le> 70 then Some (n - 55)
         else None)"

definition hex4 :: "char \<Rightarrow> char \<Rightarrow> char \<Rightarrow> char \<Rightarrow> nat option" where
  "hex4 a b c d =
     (case (hex_val a, hex_val b, hex_val c, hex_val d) of
        (Some x, Some y, Some z, Some w) \<Rightarrow> Some (((x * 16 + y) * 16 + z) * 16 + w)
      | _ \<Rightarrow> None)"

definition escape_val :: "char \<Rightarrow> nat option" where
  "escape_val c =
     (if c = CHR 0x22 then Some 34
      else if c = CHR 0x5C then Some 92
      else if c = CHR ''/'' then Some 47
      else if c = CHR ''b'' then Some 8
      else if c = CHR ''f'' then Some 12
      else if c = CHR ''n'' then Some 10
      else if c = CHR ''r'' then Some 13
      else if c = CHR ''t'' then Some 9
      else None)"

fun parse_chars :: "string \<Rightarrow> nat list \<Rightarrow> (nat list \<times> string) option" where
  "parse_chars [] acc = None"
| "parse_chars (c # cs) acc =
     (if c = CHR 0x22 then Some (rev acc, cs)
      else if c = CHR 0x5C then
        (case cs of
           [] \<Rightarrow> None
         | e # cs1 \<Rightarrow>
             if e = CHR ''u'' then
               (case cs1 of
                  a # b # c # d # cs2 \<Rightarrow>
                    (case hex4 a b c d of
                       Some n \<Rightarrow> parse_chars cs2 (n # acc)
                     | None \<Rightarrow> None)
                | _ \<Rightarrow> None)
             else
               (case escape_val e of
                  Some n \<Rightarrow> parse_chars cs1 (n # acc)
                | None \<Rightarrow> None))
      else if (of_char c :: nat) < 32 then None
      else parse_chars cs (of_char c # acc))"

definition parse_digits :: "string \<Rightarrow> (string \<times> string) option" where
  "parse_digits cs =
     (if takeWhile is_digit cs = [] then None
      else Some (takeWhile is_digit cs, dropWhile is_digit cs))"

definition parse_int_part :: "string \<Rightarrow> (string \<times> string) option" where
  "parse_int_part cs =
     (case cs of
        [] \<Rightarrow> None
      | c # r \<Rightarrow>
          if c = CHR ''0'' then Some ([c], r)
          else parse_digits cs)"

definition parse_frac :: "string \<Rightarrow> (string \<times> string) option" where
  "parse_frac cs =
     (case cs of
        [] \<Rightarrow> Some ([], cs)
      | c # r \<Rightarrow>
          if c = CHR ''.'' then
            (case parse_digits r of
               None \<Rightarrow> None
             | Some (ds, r1) \<Rightarrow> Some (c # ds, r1))
          else Some ([], cs))"

definition parse_exp :: "string \<Rightarrow> (string \<times> string) option" where
  "parse_exp cs =
     (case cs of
        [] \<Rightarrow> Some ([], cs)
      | c # r \<Rightarrow>
          if c = CHR ''e'' \<or> c = CHR ''E'' then
            (let (sg, r1) =
                   (case r of
                      [] \<Rightarrow> ([], r)
                    | s # r2 \<Rightarrow> if s = CHR ''+'' \<or> s = CHR ''-'' then ([s], r2) else ([], r))
             in case parse_digits r1 of
                  None \<Rightarrow> None
                | Some (ds, r3) \<Rightarrow> Some (c # sg @ ds, r3))
          else Some ([], cs))"

definition parse_number :: "string \<Rightarrow> (string \<times> string) option" where
  "parse_number cs =
     (let (sg, r0) =
            (case cs of
               [] \<Rightarrow> ([], cs)
             | c # r \<Rightarrow> if c = CHR ''-'' then ([c], r) else ([], cs))
      in case parse_int_part r0 of
           None \<Rightarrow> None
         | Some (ip, r1) \<Rightarrow>
             (case parse_frac r1 of
                None \<Rightarrow> None
              | Some (fp, r2) \<Rightarrow>
                  (case parse_exp r2 of
                     None \<Rightarrow> None
                   | Some (ep, r3) \<Rightarrow> Some (sg @ ip @ fp @ ep, r3))))"

definition parse_scalar :: "string \<Rightarrow> (json \<times> string) option" where
  "parse_scalar cs =
     (if take 4 cs = ''true'' then Some (JBool True, drop 4 cs)
      else if take 5 cs = ''false'' then Some (JBool False, drop 5 cs)
      else if take 4 cs = ''null'' then Some (JNull, drop 4 cs)
      else (case parse_number cs of
              None \<Rightarrow> None
            | Some (lx, r) \<Rightarrow> Some (JNumber lx, r)))"

lemma skip_ws_length: "skip_ws cs = c # r \<Longrightarrow> length r < length cs"
proof -
  assume a: "skip_ws cs = c # r"
  have "length (skip_ws cs) \<le> length cs" by (simp add: skip_ws_def length_dropWhile_le)
  with a show ?thesis by simp
qed

function parse_value :: "string \<Rightarrow> (json \<times> string) option"
  and parse_elems :: "string \<Rightarrow> json list \<Rightarrow> (json \<times> string) option"
  and parse_members :: "string \<Rightarrow> (nat list \<times> json) list \<Rightarrow> (json \<times> string) option"
where
  "parse_value cs =
     (case skip_ws cs of
        [] \<Rightarrow> None
      | c # r \<Rightarrow>
          if c = CHR 0x22 then
            (case parse_chars r [] of
               None \<Rightarrow> None
             | Some (s, r1) \<Rightarrow> Some (JString s, r1))
          else if c = CHR ''['' then
            (case skip_ws r of
               [] \<Rightarrow> None
             | d # r1 \<Rightarrow> if d = CHR '']'' then Some (JArray [], r1) else parse_elems r [])
          else if c = CHR ''{'' then
            (case skip_ws r of
               [] \<Rightarrow> None
             | d # r1 \<Rightarrow> if d = CHR ''}'' then Some (JObject [], r1) else parse_members r [])
          else parse_scalar (c # r))"
| "parse_elems cs acc =
     (case parse_value cs of
        None \<Rightarrow> None
      | Some (v, r) \<Rightarrow>
          if length r < length cs then
            (case skip_ws r of
               [] \<Rightarrow> None
             | d # r1 \<Rightarrow>
                 if d = CHR '','' then parse_elems r1 (v # acc)
                 else if d = CHR '']'' then Some (JArray (rev (v # acc)), r1)
                 else None)
          else None)"
| "parse_members cs acc =
     (case skip_ws cs of
        [] \<Rightarrow> None
      | q # r \<Rightarrow>
          if q = CHR 0x22 then
            (case parse_chars r [] of
               None \<Rightarrow> None
             | Some (k, r1) \<Rightarrow>
                 (case skip_ws r1 of
                    [] \<Rightarrow> None
                  | d # r2 \<Rightarrow>
                      if d = CHR '':'' \<and> length r2 < length cs then
                        (case parse_value r2 of
                           None \<Rightarrow> None
                         | Some (v, r3) \<Rightarrow>
                             if length r3 < length r2 then
                               (case skip_ws r3 of
                                  [] \<Rightarrow> None
                                | d1 # r4 \<Rightarrow>
                                    if d1 = CHR '','' then parse_members r4 ((k, v) # acc)
                                    else if d1 = CHR ''}'' then Some (JObject (rev ((k, v) # acc)), r4)
                                    else None)
                             else None)
                      else None))
          else None)"
  by pat_completeness auto
termination
  by (relation "measure (\<lambda>x. case x of Inl cs \<Rightarrow> 2 * length cs
                                  | Inr (Inl (cs, acc)) \<Rightarrow> 2 * length cs + 1
                                  | Inr (Inr (cs, acc)) \<Rightarrow> 2 * length cs + 1)")
     (auto dest: skip_ws_length)

definition jsonParse :: "string \<Rightarrow> json option" where
  "jsonParse text =
     (case parse_value text of
        None \<Rightarrow> None
      | Some (v, r) \<Rightarrow> if skip_ws r = [] then Some v else None)"

section \<open>The reconciler: \<open>main\<close>\<close>

text \<open>
  A buffer is a list of bytes. A remote object is the record that \<open>listObjects\<close> returns
  for it; of its fields \<open>main\<close> reads \<open>Key\<close> and \<open>ETag\<close>, and \<open>ETag\<close> may be absent
  (\<open>undefined\<close>).
\<close>

type_synonym bytes = "char list"

record s3object =
  Key :: string
  ETag :: "string option"

datatype error = ReadError | SyntaxError | PutError

text \<open>
  What a run finds outside the program: the content of the local files (\<open>None\<close> when
  \<open>readFile\<close> fails), the MD5 function of \<open>crypto\<close>, whether \<open>putObject\<close> and
  \<open>deleteObject\<close> succeed for a key, and the result of \<open>==\<close> between a decoded entity
  tag that is a boolean, a number, an array or an object and a string (that comparison
  converts through floating point numbers, which are not modelled).
\<close>

record env =
  readFile :: "string \<Rightarrow> bytes option"
  md5 :: "bytes \<Rightarrow> bytes"
  putObject :: "string \<Rightarrow> bytes \<Rightarrow> bool"
  deleteObject :: "string \<Rightarrow> bool"
  coerceEq :: "json \<Rightarrow> string \<Rightarrow> bool"

definition distDir :: string where
  "distDir = ''dist/''"

text \<open>\<open>digest('hex')\<close>: two lower-case hexadecimal digits for each byte.\<close>

definition hex_digit :: "nat \<Rightarrow> char" where
  "hex_digit n = ''0123456789abcdef'' ! (n mod 16)"

definition hex_byte :: "char \<Rightarrow> string" where
  "hex_byte b = [hex_digit (of_char b div 16), hex_digit (of_char b mod 16)]"

definition digest_hex :: "bytes \<Rightarrow> string" where
  "digest_hex bs = concat (map hex_byte bs)"

text \<open>An entity tag as the store gives it: the hexadecimal digest in double quotes.\<close>

definition quoted :: "string \<Rightarrow> string" where
  "quoted h = CHR 0x22 # h @ [CHR 0x22]"

text \<open>
  The variable \<open>s3hash\<close> stays \<open>undefined\<close> (\<open>None\<close>) unless the entry \<open>s3Map[x]\<close> exists
  and has an entity tag, which is then decoded. \<open>s3hash == localhash\<close> compares it with a
  string: \<open>undefined\<close> and \<open>null\<close> equal no string, a string equals the same string.
\<close>

definition decode_s3hash :: "s3object option \<Rightarrow> error + json option" where
  "decode_s3hash entry =
     (case entry of
        None \<Rightarrow> Inr None
      | Some ob \<Rightarrow>
          (case ETag ob of
             None \<Rightarrow> Inr None
           | Some t \<Rightarrow>
               (case jsonParse t of
                  None \<Rightarrow> Inl SyntaxError
                | Some v \<Rightarrow> Inr (Some v))))"

fun looseEq :: "(json \<Rightarrow> string \<Rightarrow> bool) \<Rightarrow> json option \<Rightarrow> string \<Rightarrow> bool" where
  "looseEq ce None h = False"
| "looseEq ce (Some JNull) h = False"
| "looseEq ce (Some (JString s)) h = (s = map of_char h)"
| "looseEq ce (Some v) h = ce v h"

text \<open>
  The state of the upload phase: the object \<open>s3Map\<close> (its own properties, in insertion
  order), and what has happened so far: the keys logged as skipped, the \<open>putObject\<close>
  calls issued, those that completed, and the tasks that were rejected.
\<close>

record upload_state =
  s3Map :: "(string \<times> s3object) list"
  skipped :: "string list"
  puts :: "(string \<times> bytes) list"
  uploaded :: "(string \<times> bytes) list"
  failures :: "(string \<times> error) list"

text \<open>
  The task of one local file \<open>x\<close> (a path relative to \<open>distDir\<close>): read the file, decode
  the remote hash, hash the content, then skip and claim the key, or put the file and
  claim the key when the put has completed. A failed read, a \<open>SyntaxError\<close> and a failed
  put reject the task.
\<close>

definition file_task :: "env \<Rightarrow> string \<Rightarrow> upload_state \<Rightarrow> upload_state" where
  "file_task e x st =
     (case readFile e (distDir @ x) of
        None \<Rightarrow> st\<lparr>failures := failures st @ [(x, ReadError)]\<rparr>
      | Some data \<Rightarrow>
          (case decode_s3hash (map_of (s3Map st) x) of
             Inl err \<Rightarrow> st\<lparr>failures := failures st @ [(x, err)]\<rparr>
           | Inr s3hash \<Rightarrow>
               (let localhash = digest_hex (md5 e data)
                in if looseEq (coerceEq e) s3hash localhash then
                     st\<lparr>skipped := skipped st @ [x], s3Map := AList.delete x (s3Map st)\<rparr>
                   else if putObject e x data then
                     st\<lparr>puts := puts st @ [(x, data)],
                        uploaded := uploaded st @ [(x, data)],
                        s3Map := AList.delete x (s3Map st)\<rparr>
                   else
                     st\<lparr>puts := puts st @ [(x, data)],
                        failures := failures st @ [(x, PutError)]\<rparr>)))"

text \<open>
  \<open>s3Files.reduce\<close> builds \<open>s3Map\<close>: a later record replaces an earlier one with the same
  key. The local paths lose the prefix \<open>distDir\<close> (\<open>substring\<close>), and every file has its task.

  \<open>s3Map\<close> is a plain object used as a dictionary, and the model is the dictionary. The
  names that an object inherits (\<open>constructor\<close>, \<open>toString\<close>, ...) read as a value without
  \<open>ETag\<close>, which is what an absent entry gives. One key is outside the model:
  \<open>__proto__\<close>, an assignment to which sets the prototype and adds no property.
\<close>

definition build_s3Map :: "s3object list \<Rightarrow> (string \<times> s3object) list" where
  "build_s3Map s3Files = fold (\<lambda>b a. AList.update (Key b) b a) s3Files []"

definition relative_paths :: "string list \<Rightarrow> string list" where
  "relative_paths localFiles = map (drop (length distDir)) localFiles"

definition upload_phase :: "env \<Rightarrow> s3object list \<Rightarrow> string list \<Rightarrow> upload_state" where
  "upload_phase e s3Files localFiles =
     fold (file_task e) (relative_paths localFiles)
       \<lparr>s3Map = build_s3Map s3Files, skipped = [], puts = [], uploaded = [], failures = []\<rparr>"

text \<open>
  The rest of the promise chain runs only when no task was rejected: the keys left in
  \<open>s3Map\<close> are the extra files, \<open>deleteObject\<close> is issued for each of them, and the run
  is done when every delete has completed. The function \<open>main\<close> below is \<open>main()\<close> of the
  source from \<open>spread\<close> on: it takes the results of \<open>iterS3\<close> and \<open>iterFS\<close>. The tasks
  are taken in the order of the list here; the interleavings of their callbacks are the
  subject of a later section, which shows that they decide and delete the same.
\<close>

datatype outcome = Done | Rejected

record run =
  uploads :: upload_state
  removing :: "string list"
  removed :: "string list"
  outcome :: outcome

definition main :: "env \<Rightarrow> s3object list \<Rightarrow> string list \<Rightarrow> run" where
  "main e s3Files localFiles =
     (let st = upload_phase e s3Files localFiles
      in if failures st \<noteq> [] then
           \<lparr>uploads = st, removing = [], removed = [], outcome = Rejected\<rparr>
         else
           (let extraFiles = map fst (s3Map st)
            in \<lparr>uploads = st, removing = extraFiles,
                removed = filter (deleteObject e) extraFiles,
                outcome = (if list_all (deleteObject e) extraFiles then Done else Rejected)\<rparr>))"

text \<open>
  The action of the specification's plan for a local file \<open>x\<close>, given the entry of
  \<open>s3Map\<close> under its key: skip when the hashes are equal, upload when they are not, and
  no action when the read or the decoding fails.
\<close>

datatype action = Skip | Upload bytes | Fail error

definition action_of :: "env \<Rightarrow> s3object option \<Rightarrow> string \<Rightarrow> action" where
  "action_of e entry x =
     (case readFile e (distDir @ x) of
        None \<Rightarrow> Fail ReadError
      | Some data \<Rightarrow>
          (case decode_s3hash entry of
             Inl err \<Rightarrow> Fail err
           | Inr s3hash \<Rightarrow>
               if looseEq (coerceEq e) s3hash (digest_hex (md5 e data)) then Skip
               else Upload data))"

text \<open>
  The plan in closed form, over the entries \<open>m\<close> of \<open>s3Map\<close> at the start: the files
  skipped, the puts issued, the puts completed and the tasks rejected.
\<close>

definition skips_of :: "env \<Rightarrow> (string \<rightharpoonup> s3object) \<Rightarrow> string list \<Rightarrow> string list" where
  "skips_of e m xs = [x \<leftarrow> xs. action_of e (m x) x = Skip]"

definition puts_of :: "env \<Rightarrow> (string \<rightharpoonup> s3object) \<Rightarrow> string list \<Rightarrow> (string \<times> bytes) list" where
  "puts_of e m xs =
     concat (map (\<lambda>x. case action_of e (m x) x of Upload d \<Rightarrow> [(x, d)] | _ \<Rightarrow> []) xs)"

definition uploaded_of :: "env \<Rightarrow> (string \<rightharpoonup> s3object) \<Rightarrow> string list \<Rightarrow> (string \<times> bytes) list" where
  "uploaded_of e m xs = [(x, d) \<leftarrow> puts_of e m xs. putObject e x d]"

definition failures_of :: "env \<Rightarrow> (string \<rightharpoonup> s3object) \<Rightarrow> string list \<Rightarrow> (string \<times> error) list" where
  "failures_of e m xs =
     concat (map (\<lambda>x. case action_of e (m x) x of
                         Fail err \<Rightarrow> [(x, err)]
                       | Upload d \<Rightarrow> (if putObject e x d then [] else [(x, PutError)])
                       | Skip \<Rightarrow> []) xs)"


text \<open>
  The remote store between two runs, as claim C3 assumes it: a key that was removed is
  gone, a key that was put holds the quoted hexadecimal MD5 digest of the bytes put as its
  entity tag, and every other key keeps its record.
\<close>

definition etag_of :: "env \<Rightarrow> bytes \<Rightarrow> string" where
  "etag_of e data = quoted (digest_hex (md5 e data))"

definition store_after :: "env \<Rightarrow> s3object list \<Rightarrow> run \<Rightarrow> (string \<rightharpoonup> s3object)" where
  "store_after e s3Files r k =
     (if k \<in> set (removed r) then None
      else (case map_of (uploaded (uploads r)) k of
              Some data \<Rightarrow> Some \<lparr>Key = k, ETag = Some (etag_of e data)\<rparr>
            | None \<Rightarrow> map_of (build_s3Map s3Files) k))"

section \<open>The local walker: \<open>iterFS\<close>\<close>








record walk =
  logged :: "string list"
  result :: "string list option"

text \<open>
  \<open>fullpath in ignore\<close>, with \<open>ignore\<close> an array, holds when \<open>fullpath\<close> is the name of a
  property of the array: the decimal of an index below its length, \<open>length\<close>, or a name
  that arrays inherit (\<open>push\<close>, \<open>constructor\<close>, and so on: the set depends on the edition
  of the language and is a parameter). The source sets \<open>ignore = []\<close>.
\<close>

fun dec :: "nat \<Rightarrow> string" where
  "dec n = (if n < 10 then [char_of (48 + n)] else dec (n div 10) @ [char_of (48 + n mod 10)])"



definition concat_walk :: "walk \<Rightarrow> walk \<Rightarrow> walk" where
  "concat_walk a b =
     \<lparr>logged = logged a @ logged b,
      result = (case result a of
                  None \<Rightarrow> None
                | Some xs \<Rightarrow> (case result b of None \<Rightarrow> None | Some ys \<Rightarrow> Some (xs @ ys)))\<rparr>"




section \<open>The remote lister: \<open>iterS3\<close>\<close>

text \<open>
  The callback of \<open>listObjects\<close> receives an error (or \<open>null\<close>) and a page (or
  \<open>null\<close>). The calls of one listing are answered by a list of such responses, in the
  order of the calls; a call without a response is never answered. The state of a listing
  is the array \<open>keys\<close>, the state of the promise that \<open>iterS3\<close> returned, the markers
  of the calls issued, and whether a callback threw a \<open>TypeError\<close>.
\<close>

record page =
  Contents :: "s3object list"
  IsTruncated :: bool

type_synonym response = "string option \<times> page option"

datatype promise = Pending | Resolved "s3object list" | RejectedWith "string option"

record listing_state =
  keys :: "s3object list"
  promise :: promise
  requests :: "string option list"
  thrown :: bool

text \<open>\<open>resolve\<close> and \<open>reject\<close> settle a pending promise and leave a settled one alone.\<close>

definition settle :: "promise \<Rightarrow> listing_state \<Rightarrow> listing_state" where
  "settle p st = (if promise st = Pending then st\<lparr>promise := p\<rparr> else st)"

definition listObjects :: "string option \<Rightarrow> listing_state \<Rightarrow> listing_state" where
  "listObjects marker st = st\<lparr>requests := requests st @ [marker]\<rparr>"

definition reject_if_failed :: "string option \<Rightarrow> page option \<Rightarrow> listing_state \<Rightarrow> listing_state" where
  "reject_if_failed err data st =
     (if err \<noteq> None \<or> data = None then settle (RejectedWith err) st else st)"

definition push_contents :: "page \<Rightarrow> listing_state \<Rightarrow> listing_state" where
  "push_contents d st = st\<lparr>keys := keys st @ Contents d\<rparr>"

definition throw_TypeError :: "listing_state \<Rightarrow> listing_state" where
  "throw_TypeError st = st\<lparr>thrown := True\<rparr>"

text \<open>
  \<open>iterPage(marker)\<close>: the callback rejects on an error or a \<open>null\<close> page and goes on
  (there is no \<open>return\<close>): \<open>data.Contents\<close> of a \<open>null\<close> page throws; otherwise the
  contents are pushed, and a truncated page asks for the next one after the key of its
  last object (which throws when the page is empty), while the last page resolves.
\<close>

fun iterPage :: "response list \<Rightarrow> string option \<Rightarrow> listing_state \<Rightarrow> listing_state" where
  "iterPage [] marker st = listObjects marker st"
| "iterPage ((err, data) # rs) marker st =
     (let st1 = reject_if_failed err data (listObjects marker st)
      in case data of
           None \<Rightarrow> throw_TypeError st1
         | Some d \<Rightarrow>
             (let st2 = push_contents d st1
              in if IsTruncated d then
                   (case Contents d of
                      [] \<Rightarrow> throw_TypeError st2
                    | _ # _ \<Rightarrow> iterPage rs (Some (Key (last (Contents d)))) st2)
                 else settle (Resolved (keys st2)) st2))"

definition iterS3 :: "response list \<Rightarrow> listing_state" where
  "iterS3 rs = iterPage rs None \<lparr>keys = [], promise = Pending, requests = [], thrown = False\<rparr>"

definition bad_response :: "response \<Rightarrow> bool" where
  "bad_response r = (fst r \<noteq> None \<or> snd r = None)"

section \<open>The run as interleaved callbacks\<close>

text \<open>
  The tasks of the local files run concurrently: what interleaves are the callbacks, each
  of which runs to its end once it has started. A task is reading its file, or has a put in
  flight, or is finished (skipped, or put and claimed), or is rejected. A configuration
  holds the phase of every task (by its position in the list of local paths), the object
  \<open>s3Map\<close>, whether the delete phase has started, the deletes in flight, and the log.
\<close>

datatype phase = Reading | Putting bytes | Finished | TaskRejected error

datatype event = Skipping string | Uploading string | Uploaded string | Removing string | Removed string

record config =
  phases :: "phase list"
  cmap :: "(string \<times> s3object) list"
  deleting :: bool
  inflight :: "string list"
  trace :: "event list"

text \<open>
  The callback of \<open>readFile\<close> decides: skip and claim the key, or start the put. The
  callback of \<open>putObject\<close> claims the key. The continuation after \<open>Promise.all(...).map\<close>
  starts one delete for every key left in \<open>s3Map\<close>; each delete completes on its own.
\<close>

definition after_read :: "env \<Rightarrow> string \<Rightarrow> nat \<Rightarrow> config \<Rightarrow> config" where
  "after_read e x i c =
     (case action_of e (map_of (cmap c) x) x of
        Skip \<Rightarrow> c\<lparr>phases := (phases c)[i := Finished],
                  cmap := AList.delete x (cmap c),
                  trace := trace c @ [Skipping x]\<rparr>
      | Upload data \<Rightarrow> c\<lparr>phases := (phases c)[i := Putting data],
                         trace := trace c @ [Uploading x]\<rparr>
      | Fail err \<Rightarrow> c\<lparr>phases := (phases c)[i := TaskRejected err]\<rparr>)"

definition after_put :: "env \<Rightarrow> string \<Rightarrow> bytes \<Rightarrow> nat \<Rightarrow> config \<Rightarrow> config" where
  "after_put e x data i c =
     (if putObject e x data then
        c\<lparr>phases := (phases c)[i := Finished],
          cmap := AList.delete x (cmap c),
          trace := trace c @ [Uploaded x]\<rparr>
      else c\<lparr>phases := (phases c)[i := TaskRejected PutError]\<rparr>)"

definition start_deletes :: "config \<Rightarrow> config" where
  "start_deletes c =
     c\<lparr>deleting := True,
       inflight := map fst (cmap c),
       trace := trace c @ map Removing (map fst (cmap c))\<rparr>"

definition after_delete :: "env \<Rightarrow> string \<Rightarrow> config \<Rightarrow> config" where
  "after_delete e k c =
     c\<lparr>inflight := remove1 k (inflight c),
       trace := trace c @ (if deleteObject e k then [Removed k] else [])\<rparr>"

text \<open>
  One step is one callback: of a read or a put in flight, of the completed \<open>map\<close> (which
  is fulfilled when every task is finished, and never when a task is rejected), or of a
  delete in flight.
\<close>

inductive step :: "env \<Rightarrow> string list \<Rightarrow> config \<Rightarrow> config \<Rightarrow> bool" for e xs where
  read_done: "i < length xs \<Longrightarrow> phases c ! i = Reading \<Longrightarrow> step e xs c (after_read e (xs ! i) i c)"
| put_done: "i < length xs \<Longrightarrow> phases c ! i = Putting data \<Longrightarrow>
             step e xs c (after_put e (xs ! i) data i c)"
| deletes_start: "\<not> deleting c \<Longrightarrow> list_all (\<lambda>p. p = Finished) (phases c) \<Longrightarrow>
             step e xs c (start_deletes c)"
| delete_done: "k \<in> set (inflight c) \<Longrightarrow> step e xs c (after_delete e k c)"

definition initial :: "s3object list \<Rightarrow> string list \<Rightarrow> config" where
  "initial s3Files xs =
     \<lparr>phases = replicate (length xs) Reading, cmap = build_s3Map s3Files,
      deleting = False, inflight = [], trace = []\<rparr>"

definition reachable :: "env \<Rightarrow> s3object list \<Rightarrow> string list \<Rightarrow> config \<Rightarrow> bool" where
  "reachable e s3Files localFiles c =
     rtranclp (step e (relative_paths localFiles)) (initial s3Files (relative_paths localFiles)) c"

text \<open>
  Events of the delete phase, the decisions of the upload phase (every local file has been
  skipped or put), and the two invariants of the reachable configurations.
\<close>

fun is_delete :: "event \<Rightarrow> bool" where
  "is_delete (Removing k) = True"
| "is_delete (Removed k) = True"
| "is_delete _ = False"

fun is_removed :: "event \<Rightarrow> bool" where
  "is_removed (Removed k) = True"
| "is_removed _ = False"

definition decided :: "string list \<Rightarrow> event list \<Rightarrow> bool" where
  "decided xs tr = (\<forall>x \<in> set xs. Skipping x \<in> set tr \<or> Uploaded x \<in> set tr)"

definition barrier :: "string list \<Rightarrow> config \<Rightarrow> bool" where
  "barrier xs c =
     (length (phases c) = length xs \<and>
      (if deleting c then
         list_all (\<lambda>p. p = Finished) (phases c)
         \<and> (\<exists>pre post. trace c = pre @ map Removing (map fst (cmap c)) @ post
               \<and> list_all (\<lambda>ev. \<not> is_delete ev) pre \<and> list_all is_removed post
               \<and> decided xs pre)
       else
         list_all (\<lambda>ev. \<not> is_delete ev) (trace c) \<and> inflight c = []
         \<and> (\<forall>i < length xs. phases c ! i = Finished \<longrightarrow>
               Skipping (xs ! i) \<in> set (trace c) \<or> Uploaded (xs ! i) \<in> set (trace c))))"

definition finished_keys :: "string list \<Rightarrow> config \<Rightarrow> string set" where
  "finished_keys xs c = {xs ! i | i. i < length xs \<and> phases c ! i = Finished}"

definition claimed :: "s3object list \<Rightarrow> string list \<Rightarrow> config \<Rightarrow> bool" where
  "claimed s3Files xs c =
     (length (phases c) = length xs
      \<and> fst ` set (cmap c) = Key ` set s3Files - finished_keys xs c)"

text \<open>
  A configuration agrees with the plan when every task is where its action, computed from
  \<open>s3Map\<close> at the start, puts it.
\<close>

definition agrees :: "env \<Rightarrow> s3object list \<Rightarrow> string list \<Rightarrow> config \<Rightarrow> bool" where
  "agrees e s3Files xs c =
     (\<forall>i < length xs.
        (case phases c ! i of
           Reading \<Rightarrow> map_of (cmap c) (xs ! i) = map_of (build_s3Map s3Files) (xs ! i)
         | Putting d \<Rightarrow> action_of e (map_of (build_s3Map s3Files) (xs ! i)) (xs ! i) = Upload d
         | Finished \<Rightarrow>
             action_of e (map_of (build_s3Map s3Files) (xs ! i)) (xs ! i) = Skip
             \<or> (\<exists>d. action_of e (map_of (build_s3Map s3Files) (xs ! i)) (xs ! i) = Upload d
                    \<and> putObject e (xs ! i) d)
         | TaskRejected err \<Rightarrow> True))"

section \<open>Examples\<close>

text \<open>
  An environment for the examples: three local files, the MD5 digests of the contents
  that occur (\<open>md5("hi") = 49f68a5c8493ec2c0bf489821c21fc3b\<close>, and so on), and a store
  that accepts every put and delete. The examples compare strings only, so the
  coercing comparison is never asked.
\<close>

definition demo_md5 :: "bytes \<Rightarrow> bytes" where
  "demo_md5 d =
     (if d = ''hi'' then
        [CHR 0x49, CHR 0xF6, CHR 0x8A, CHR 0x5C, CHR 0x84, CHR 0x93, CHR 0xEC, CHR 0x2C,
         CHR 0x0B, CHR 0xF4, CHR 0x89, CHR 0x82, CHR 0x1C, CHR 0x21, CHR 0xFC, CHR 0x3B]
      else if d = ''ho'' then
        [CHR 0xB5, CHR 0xD9, CHR 0xB5, CHR 0x91, CHR 0x13, CHR 0x08, CHR 0x6D, CHR 0x3F,
         CHR 0x9F, CHR 0x9F, CHR 0x10, CHR 0x8A, CHR 0xDA, CHR 0xAA, CHR 0x9A, CHR 0xB5]
      else if d = ''B'' then
        [CHR 0x9D, CHR 0x5E, CHR 0xD6, CHR 0x78, CHR 0xFE, CHR 0x57, CHR 0xBC, CHR 0xCA,
         CHR 0x61, CHR 0x01, CHR 0x40, CHR 0x95, CHR 0x7A, CHR 0xFA, CHR 0xB5, CHR 0x71]
      else if d = ''alert(1)'' then
        [CHR 0x23, CHR 0x8E, CHR 0x96, CHR 0xD5, CHR 0xB6, CHR 0x2A, CHR 0x1A, CHR 0xEC,
         CHR 0x37, CHR 0x39, CHR 0x73, CHR 0x04, CHR 0x69, CHR 0xF2, CHR 0x71, CHR 0x92]
      else [])"

definition demo_env :: env where
  "demo_env =
     \<lparr>readFile = map_of [(''dist/a.html'', ''hi''), (''dist/b.png'', ''B''),
                         (''dist/x.js'', ''alert(1)'')],
      md5 = demo_md5,
      putObject = (\<lambda>k d. True),
      deleteObject = (\<lambda>k. True),
      coerceEq = (\<lambda>v h. False)\<rparr>"

text \<open>
  The scenario of the specification: \<open>a.html\<close> is unchanged, \<open>b.png\<close> is new and
  \<open>c.css\<close> is extra. Then other remote listings: a record without entity tag; an entity
  tag that is a multipart-style token without the quotes (not JSON); the same token
  quoted; the tag of another content; the store after the run of the scenario. Then a
  directory tree, the responses of a listing whose second page fails, and a configuration
  reached by five callbacks.
\<close>

definition demo_remote :: "s3object list" where
  "demo_remote =
     [\<lparr>Key = ''a.html'', ETag = Some (quoted ''49f68a5c8493ec2c0bf489821c21fc3b'')\<rparr>,
      \<lparr>Key = ''c.css'', ETag = Some (quoted ''aa676972bbd2b68e94ef8e91e81d20be'')\<rparr>]"

definition demo_local :: "string list" where
  "demo_local = [''dist/a.html'', ''dist/b.png'']"

definition no_etag_remote :: "s3object list" where
  "no_etag_remote = [\<lparr>Key = ''a.html'', ETag = None\<rparr>]"




definition demo_remote2 :: "s3object list" where
  "demo_remote2 =
     [\<lparr>Key = ''a.html'', ETag = Some (quoted ''49f68a5c8493ec2c0bf489821c21fc3b'')\<rparr>,
      \<lparr>Key = ''b.png'', ETag = Some (quoted ''9d5ed678fe57bcca610140957afab571'')\<rparr>]"


definition failing_listing :: "response list" where
  "failing_listing =
     [(None, Some \<lparr>Contents = [\<lparr>Key = ''a.html'', ETag = Some (quoted ''49f68a5c8493ec2c0bf489821c21fc3b'')\<rparr>],
                    IsTruncated = True\<rparr>),
      (Some ''NetworkingError'', None)]"


section \<open>Properties of the path functions\<close>

lemma last_component_no_slash: "c \<in> set (last_component p) \<Longrightarrow> \<not> is_slash c"
  unfolding last_component_def by (auto dest: set_takeWhileD)

lemma last_component_self:
  assumes "\<forall>c \<in> set s. \<not> is_slash c"
  shows "last_component s = s"
proof -
  have a: "\<forall>c \<in> set (rev s). \<not> is_slash c" using assms by simp
  have "dropWhile is_slash (rev s) = rev s"
    using a by (cases "rev s") auto
  moreover have "takeWhile (\<lambda>c. \<not> is_slash c) (rev s) = rev s"
    using a by (simp add: takeWhile_eq_all_conv)
  ultimately show ?thesis by (simp only: last_component_def rev_rev_ident)
qed

lemma last_component_idem: "last_component (last_component p) = last_component p"
  by (rule last_component_self) (auto dest: last_component_no_slash)

lemma extname_last_component: "extname (last_component p) = extname p"
  by (simp add: extname_def last_component_idem)

lemma strip_split: "strip_trailing_slashes p = dir_part p @ last_component p"
proof -
  have "rev (strip_trailing_slashes p) = rev (last_component p) @ rev (dir_part p)"
    by (simp add: strip_trailing_slashes_def last_component_def dir_part_def)
  then show ?thesis by (metis rev_append rev_rev_ident)
qed

lemma last_component_dir_append:
  assumes "s \<noteq> []" "\<forall>c \<in> set s. \<not> is_slash c"
  shows "last_component (dir_part p @ s) = s"
proof -
  have h: "\<not> is_slash (hd (rev s))" using assms by (metis hd_in_set rev_is_Nil_conv set_rev)
  have r: "rev s \<noteq> []" using assms by simp
  have d: "dropWhile is_slash (rev s @ rev (dir_part p)) = rev s @ rev (dir_part p)"
    using h r by (cases "rev s") auto
  have "rev (dir_part p) = [] \<or> is_slash (hd (rev (dir_part p)))"
    unfolding dir_part_def using hd_dropWhile[of "\<lambda>c. \<not> is_slash c"] by fastforce
  then have t: "takeWhile (\<lambda>c. \<not> is_slash c) (rev (dir_part p)) = []"
    by (cases "rev (dir_part p)") auto
  have "takeWhile (\<lambda>c. \<not> is_slash c) (rev s @ rev (dir_part p)) = rev s"
    using assms t takeWhile_append2[of "rev s" "\<lambda>c. \<not> is_slash c" "rev (dir_part p)"] by simp
  then show ?thesis using d by (simp add: last_component_def)
qed

lemma extname_gz_shape:
  assumes "extname p = ''.gz''"
  shows "\<exists>stem. stem \<noteq> [] \<and> last_component p = stem @ ''.gz''"
proof -
  let ?seg = "last_component p"
  have dot: "CHR ''.'' \<in> set ?seg" and len: "length ?seg \<noteq> Suc (length (after_last_dot ?seg))"
    and ext: "after_last_dot ?seg = ''gz''"
    using assms by (auto simp: extname_def Let_def split: if_splits)
  have "rev ?seg = takeWhile (\<lambda>c. c \<noteq> CHR ''.'') (rev ?seg) @ dropWhile (\<lambda>c. c \<noteq> CHR ''.'') (rev ?seg)"
    by simp
  moreover have "dropWhile (\<lambda>c. c \<noteq> CHR ''.'') (rev ?seg) \<noteq> []" using dot by (simp add: dropWhile_eq_Nil_conv)
  then obtain r where r: "dropWhile (\<lambda>c. c \<noteq> CHR ''.'') (rev ?seg) = CHR ''.'' # r"
    using hd_dropWhile[of "\<lambda>c. c \<noteq> CHR ''.''" "rev ?seg"] by (cases "dropWhile (\<lambda>c. c \<noteq> CHR ''.'') (rev ?seg)") auto
  ultimately have "rev ?seg = rev (after_last_dot ?seg) @ CHR ''.'' # r"
    by (simp add: after_last_dot_def)
  then have "?seg = rev r @ CHR ''.'' # after_last_dot ?seg"
    by (metis rev_append rev_rev_ident rev.simps(2) append_Cons append_Nil append_assoc)
  then have s: "?seg = rev r @ ''.gz''" using ext by simp
  moreover have "rev r \<noteq> []" using len s ext by auto
  ultimately show ?thesis by blast
qed

lemma contentType_strip:
  assumes "extname name = ''.gz''"
  shows "extname (basename name (extname name)) = extname (strip_gz name)"
proof -
  obtain stem where st: "stem \<noteq> []" "last_component name = stem @ ''.gz''"
    using extname_gz_shape[OF assms] by blast
  have ns: "\<forall>c \<in> set stem. \<not> is_slash c"
    using last_component_no_slash[of _ name] st by auto
  have body: "strip_trailing_slashes name = dir_part name @ stem @ ''.gz''"
    using strip_split[of name] st by simp
  have "length (strip_trailing_slashes name) \<le> length name"
    by (simp add: strip_trailing_slashes_def) (metis length_dropWhile_le length_rev)
  moreover have "length (strip_trailing_slashes name) = length (dir_part name) + length stem + 3"
    using body by simp
  ultimately have len3: "3 \<le> length name" by linarith
  have "last_component ''.gz'' = ''.gz''"
    by (simp add: last_component_def is_slash_def)
  then have "name \<noteq> ''.gz''" using st by auto
  note len = len3 this
  have b: "basename name ''.gz'' = stem"
    using st len by (simp add: basename_def Let_def)
  have s: "strip_gz name = dir_part name @ stem"
    using assms body by (simp add: strip_gz_def Let_def)
  have "extname (dir_part name @ stem) = extname stem"
    using last_component_dir_append[OF st(1) ns, of name] extname_last_component[of "dir_part name @ stem"]
    by simp
  then show ?thesis using b s assms by simp
qed

lemma extname_examples:
  "extname ''index.html'' = ''.html''" "extname ''index.coffee.md'' = ''.md''"
  "extname ''index.'' = ''.''" "extname ''index'' = []"
  "extname ''.index'' = []" "extname ''.index.md'' = ''.md''"
  by (simp_all add: extname_def last_component_def after_last_dot_def is_slash_def Let_def)

lemma basename_examples:
  "basename ''/foo/bar/baz/asdf/quux.html'' ''.html'' = ''quux''"
  "basename ''dist/foo.html.gz'' ''.gz'' = ''foo.html''"
  by (simp_all add: basename_def last_component_def is_slash_def Let_def)

section \<open>Content types: the table\<close>

text \<open>
  Claim C9. \<open>contentType\<close> is a total function without a failure path: a \<open>.gz\<close>
  extension is stripped first, and the result is the entry of the fixed table for the
  extension of what is left (\<open>text/html\<close> for the empty extension, \<open>.htm\<close> and
  \<open>.html\<close>; \<open>image/png\<close>; \<open>image/jpeg\<close> for \<open>.jpg\<close> and \<open>.jpeg\<close>;
  \<open>text/javascript\<close>; \<open>text/css\<close>; \<open>image/svg+xml\<close>), and
  \<open>application/octet-stream\<close> for every other extension; \<open>foo.html.gz\<close> yields
  \<open>text/html\<close>.
\<close>

theorem contentType_table:
  "contentType name = mime_of_ext (extname (strip_gz name))
   \<and> contentType ''foo.html.gz'' = ''text/html''"
proof
  show "contentType name = mime_of_ext (extname (strip_gz name))"
  proof (cases "extname name = ''.gz''")
    case True
    then show ?thesis
      using contentType_strip[OF True]
      by (simp add: contentType_def Let_def mime_of_ext_def mime_table_def)
  next
    case False
    then show ?thesis
      by (simp add: contentType_def Let_def mime_of_ext_def mime_table_def strip_gz_def)
  qed
  show "contentType ''foo.html.gz'' = ''text/html''"
    by (simp add: contentType_def extname_def basename_def last_component_def
        after_last_dot_def is_slash_def Let_def)
qed

section \<open>The JSON parser consumes its input\<close>

lemma parse_chars_consumes: "parse_chars cs acc = Some (s, r) \<Longrightarrow> length r < length cs"
proof (induction cs acc rule: parse_chars.induct)
  case (1 acc)
  then show ?case by simp
next
  case (2 c cs acc)
  then show ?case
    by (auto split: if_splits list.splits option.splits) fastforce+
qed

lemma parse_digits_consumes: "parse_digits cs = Some (ds, r) \<Longrightarrow> length r < length cs"
proof -
  assume a: "parse_digits cs = Some (ds, r)"
  then have ne: "takeWhile is_digit cs \<noteq> []" and r: "r = dropWhile is_digit cs"
    by (auto simp: parse_digits_def split: if_splits)
  have "length (takeWhile is_digit cs) + length (dropWhile is_digit cs) = length cs"
    by (metis length_append takeWhile_dropWhile_id)
  then show ?thesis using ne r by (cases "takeWhile is_digit cs") auto
qed

lemma parse_int_part_consumes: "parse_int_part cs = Some (ds, r) \<Longrightarrow> length r < length cs"
  by (auto simp: parse_int_part_def split: list.splits if_splits dest: parse_digits_consumes)

lemma parse_frac_le: "parse_frac cs = Some (ds, r) \<Longrightarrow> length r \<le> length cs"
  by (auto simp: parse_frac_def split: list.splits if_splits option.splits dest!: parse_digits_consumes)

lemma parse_exp_le: "parse_exp cs = Some (ds, r) \<Longrightarrow> length r \<le> length cs"
  by (auto simp: parse_exp_def Let_def split: list.splits if_splits option.splits prod.splits
      dest!: parse_digits_consumes)

lemma parse_number_consumes: "parse_number cs = Some (lx, r) \<Longrightarrow> length r < length cs"
  by (auto simp: parse_number_def Let_def split: list.splits if_splits option.splits prod.splits
      dest!: parse_int_part_consumes parse_frac_le parse_exp_le)

lemma parse_scalar_consumes: "parse_scalar cs = Some (v, r) \<Longrightarrow> length r < length cs"
proof -
  assume a: "parse_scalar cs = Some (v, r)"
  have t: "take n cs = w \<Longrightarrow> w \<noteq> [] \<Longrightarrow> length (drop n cs) < length cs" for n w
    by (cases cs; cases n) auto
  show ?thesis
    using a t[of 4 "''true''"] t[of 5 "''false''"] t[of 4 "''null''"]
    by (auto simp: parse_scalar_def split: if_splits option.splits dest: parse_number_consumes)
qed

lemma skip_ws_le: "length (skip_ws cs) \<le> length cs"
  by (simp add: skip_ws_def length_dropWhile_le)

lemma skip_ws_Cons_le: "skip_ws cs = c # r \<Longrightarrow> Suc (length r) \<le> length cs"
  using skip_ws_le[of cs] by simp

lemma parse_consumes:
  "\<forall>v r. parse_value cs = Some (v, r) \<longrightarrow> length r < length cs"
  "\<forall>v r. parse_elems cs1 acc1 = Some (v, r) \<longrightarrow> length r < length cs1"
  "\<forall>v r. parse_members cs2 acc2 = Some (v, r) \<longrightarrow> length r < length cs2"
proof (induction cs and cs1 acc1 and cs2 acc2 rule: parse_value_parse_elems_parse_members.induct)
  case (1 cs)
  show ?case
  proof (intro allI impI)
    fix v r assume a: "parse_value cs = Some (v, r)"
    then obtain c r0 where sk: "skip_ws cs = c # r0"
      by (subst (asm) parse_value.simps) (auto split: list.splits)
    have l0: "Suc (length r0) \<le> length cs" using sk by (rule skip_ws_Cons_le)
    consider (str) "c = CHR 0x22" | (arr) "c \<noteq> CHR 0x22" "c = CHR ''[''"
      | (obj) "c \<noteq> CHR 0x22" "c \<noteq> CHR ''[''" "c = CHR ''{''"
      | (sc) "c \<noteq> CHR 0x22" "c \<noteq> CHR ''[''" "c \<noteq> CHR ''{''" by blast
    then show "length r < length cs"
    proof cases
      case str
      then have "\<exists>s. parse_chars r0 [] = Some (s, r)"
        using a sk by (subst (asm) parse_value.simps) (auto split: option.splits)
      then show ?thesis using l0 by (auto dest: parse_chars_consumes)
    next
      case arr
      from a sk arr obtain d r1 where s2: "skip_ws r0 = d # r1"
        by (subst (asm) parse_value.simps) (auto split: list.splits)
      show ?thesis
      proof (cases "d = CHR '']''")
        case True
        then have "r = r1" using a sk arr s2 by (subst (asm) parse_value.simps) auto
        then show ?thesis using skip_ws_Cons_le[OF s2] l0 by simp
      next
        case False
        then have pe: "parse_elems r0 [] = Some (v, r)"
          using a sk arr s2 by (subst (asm) parse_value.simps) auto
        have "length r < length r0"
          using "1.IH"(1)[OF sk _ _ s2 False] arr pe by simp
        then show ?thesis using l0 by simp
      qed
    next
      case obj
      from a sk obj obtain d r1 where s2: "skip_ws r0 = d # r1"
        by (subst (asm) parse_value.simps) (auto split: list.splits)
      show ?thesis
      proof (cases "d = CHR ''}''")
        case True
        then have "r = r1" using a sk obj s2 by (subst (asm) parse_value.simps) auto
        then show ?thesis using skip_ws_Cons_le[OF s2] l0 by simp
      next
        case False
        then have pe: "parse_members r0 [] = Some (v, r)"
          using a sk obj s2 by (subst (asm) parse_value.simps) auto
        have "length r < length r0"
          using "1.IH"(2)[OF sk _ _ _ s2 False] obj pe by simp
        then show ?thesis using l0 by simp
      qed
    next
      case sc
      then have "parse_scalar (c # r0) = Some (v, r)"
        using a sk by (subst (asm) parse_value.simps) auto
      then have "length r < length (c # r0)" by (rule parse_scalar_consumes)
      then show ?thesis using l0 by simp
    qed
  qed
next
  case (2 cs acc)
  show ?case
  proof (intro allI impI)
    fix v r assume a: "parse_elems cs acc = Some (v, r)"
    then obtain v0 r0 where pv: "parse_value cs = Some (v0, r0)" and l: "length r0 < length cs"
      by (subst (asm) parse_elems.simps) (auto split: option.splits if_splits)
    from a pv l obtain d r1 where sk: "skip_ws r0 = d # r1"
      by (subst (asm) parse_elems.simps) (auto split: list.splits)
    have l1: "Suc (length r1) \<le> length r0" using sk by (rule skip_ws_Cons_le)
    show "length r < length cs"
    proof (cases "d = CHR '',''")
      case True
      then have "parse_elems r1 (v0 # acc) = Some (v, r)"
        using a pv l sk by (subst (asm) parse_elems.simps) auto
      then have "length r < length r1"
        using "2.IH"(2)[OF pv _ l sk True] by simp
      then show ?thesis using l l1 by simp
    next
      case False
      then have "r = r1" using a pv l sk
        by (subst (asm) parse_elems.simps) (auto split: if_splits)
      then show ?thesis using l l1 by simp
    qed
  qed
next
  case (3 cs acc)
  show ?case
  proof (intro allI impI)
    fix v r assume a: "parse_members cs acc = Some (v, r)"
    then obtain q r0 where sk: "skip_ws cs = q # r0" and q: "q = CHR 0x22"
      by (subst (asm) parse_members.simps) (auto split: list.splits if_splits)
    from a sk q obtain k r1 where pc: "parse_chars r0 [] = Some (k, r1)"
      by (subst (asm) parse_members.simps) (auto split: option.splits)
    from a sk q pc obtain d r2 where s2: "skip_ws r1 = d # r2" and d: "d = CHR '':''" and l2: "length r2 < length cs"
      by (subst (asm) parse_members.simps) (auto split: list.splits if_splits)
    from a sk q pc s2 d l2 obtain v0 r3 where pv: "parse_value r2 = Some (v0, r3)" and l3: "length r3 < length r2"
      by (subst (asm) parse_members.simps) (auto split: option.splits if_splits)
    from a sk q pc s2 d l2 pv l3 obtain d1 r4 where s4: "skip_ws r3 = d1 # r4"
      by (subst (asm) parse_members.simps) (auto split: list.splits)
    have l4: "Suc (length r4) \<le> length r3" using s4 by (rule skip_ws_Cons_le)
    show "length r < length cs"
    proof (cases "d1 = CHR '',''")
      case True
      then have "parse_members r4 ((k, v0) # acc) = Some (v, r)"
        using a sk q pc s2 d l2 pv l3 s4 by (subst (asm) parse_members.simps) auto
      then have "length r < length r4"
        using "3.IH"(2)[OF sk q pc _ s2 _ pv _ l3 s4 True] d l2 by simp
      then show ?thesis using l4 l3 l2 by simp
    next
      case False
      then have "r = r4" using a sk q pc s2 d l2 pv l3 s4
        by (subst (asm) parse_members.simps) (auto split: if_splits)
      then show ?thesis using l4 l3 l2 by simp
    qed
  qed
qed

text \<open>The length tests in \<open>parse_elems\<close> and \<open>parse_members\<close> never fail: they are there
  for the termination proof only.\<close>

lemma parse_elems_unguarded:
  "parse_elems cs acc =
     (case parse_value cs of
        None \<Rightarrow> None
      | Some (v, r) \<Rightarrow>
          (case skip_ws r of
             [] \<Rightarrow> None
           | d # r1 \<Rightarrow>
               if d = CHR '','' then parse_elems r1 (v # acc)
               else if d = CHR '']'' then Some (JArray (rev (v # acc)), r1)
               else None))"
proof (cases "parse_value cs")
  case None
  show ?thesis by (subst parse_elems.simps) (simp only: None option.case)
next
  case (Some p)
  obtain v r where p: "p = (v, r)" by (cases p)
  have l: "length r < length cs" using parse_consumes(1)[of cs] Some p by simp
  show ?thesis
    by (subst parse_elems.simps) (simp only: Some p option.case prod.case l if_True)
qed

lemma parse_members_unguarded:
  "parse_members cs acc =
     (case skip_ws cs of
        [] \<Rightarrow> None
      | q # r \<Rightarrow>
          if q = CHR 0x22 then
            (case parse_chars r [] of
               None \<Rightarrow> None
             | Some (k, r1) \<Rightarrow>
                 (case skip_ws r1 of
                    [] \<Rightarrow> None
                  | d # r2 \<Rightarrow>
                      if d = CHR '':'' then
                        (case parse_value r2 of
                           None \<Rightarrow> None
                         | Some (v, r3) \<Rightarrow>
                             (case skip_ws r3 of
                                [] \<Rightarrow> None
                              | d1 # r4 \<Rightarrow>
                                  if d1 = CHR '','' then parse_members r4 ((k, v) # acc)
                                  else if d1 = CHR ''}'' then Some (JObject (rev ((k, v) # acc)), r4)
                                  else None))
                      else None))
          else None)"
proof -
  have g1: "length r2 < length cs"
    if "skip_ws cs = q # r" "parse_chars r [] = Some (k, r1)" "skip_ws r1 = d # r2" for q r k r1 d r2
    using skip_ws_Cons_le[OF that(1)] parse_chars_consumes[OF that(2)] skip_ws_Cons_le[OF that(3)]
    by simp
  have g2: "length r3 < length r2" if "parse_value r2 = Some (v, r3)" for r2 v r3
    using parse_consumes(1)[of r2] that by simp
  show ?thesis
    by (subst parse_members.simps)
       (simp del: parse_value.simps parse_elems.simps parse_members.simps
          add: g1 g2 split: list.splits option.splits)
qed

section \<open>The upload phase in closed form\<close>

lemma file_task_cases:
  "file_task e x st =
     (case action_of e (map_of (s3Map st) x) x of
        Fail err \<Rightarrow> st\<lparr>failures := failures st @ [(x, err)]\<rparr>
      | Skip \<Rightarrow> st\<lparr>skipped := skipped st @ [x], s3Map := AList.delete x (s3Map st)\<rparr>
      | Upload data \<Rightarrow>
          if putObject e x data then
            st\<lparr>puts := puts st @ [(x, data)], uploaded := uploaded st @ [(x, data)],
               s3Map := AList.delete x (s3Map st)\<rparr>
          else st\<lparr>puts := puts st @ [(x, data)], failures := failures st @ [(x, PutError)]\<rparr>)"
  by (simp add: file_task_def action_of_def Let_def split: option.splits sum.splits)

lemma file_task_map_of_other:
  "y \<noteq> x \<Longrightarrow> map_of (s3Map (file_task e x st)) y = map_of (s3Map st) y"
  by (simp add: file_task_cases delete_conv' split: action.splits)

lemma file_task_keys:
  "fst ` set (s3Map (file_task e x st)) \<subseteq> fst ` set (s3Map st)"
  using dom_delete_subset[of x "s3Map st"] by (auto simp add: file_task_cases split: action.splits)

lemma fold_task_map_of_other:
  "y \<notin> set xs \<Longrightarrow> map_of (s3Map (fold (file_task e) xs st)) y = map_of (s3Map st) y"
  by (induction xs arbitrary: st) (auto simp: file_task_map_of_other)

lemma fold_task_closed:
  assumes "distinct xs"
  shows "skipped (fold (file_task e) xs st) = skipped st @ skips_of e (map_of (s3Map st)) xs
       \<and> puts (fold (file_task e) xs st) = puts st @ puts_of e (map_of (s3Map st)) xs
       \<and> uploaded (fold (file_task e) xs st) = uploaded st @ uploaded_of e (map_of (s3Map st)) xs
       \<and> failures (fold (file_task e) xs st) = failures st @ failures_of e (map_of (s3Map st)) xs"
  using assms
proof (induction xs arbitrary: st)
  case Nil
  then show ?case by (simp add: skips_of_def puts_of_def uploaded_of_def failures_of_def)
next
  case (Cons x xs)
  have eq: "\<And>y. y \<in> set xs \<Longrightarrow> map_of (s3Map (file_task e x st)) y = map_of (s3Map st) y"
    using Cons.prems by (auto intro: file_task_map_of_other)
  have s: "skips_of e (map_of (s3Map (file_task e x st))) xs = skips_of e (map_of (s3Map st)) xs"
    unfolding skips_of_def using eq by (auto intro: filter_cong)
  have p: "puts_of e (map_of (s3Map (file_task e x st))) xs = puts_of e (map_of (s3Map st)) xs"
    unfolding puts_of_def using eq by (auto intro!: arg_cong[where f=concat] map_cong)
  have f: "failures_of e (map_of (s3Map (file_task e x st))) xs = failures_of e (map_of (s3Map st)) xs"
    unfolding failures_of_def using eq by (auto intro!: arg_cong[where f=concat] map_cong)
  have u: "uploaded_of e (map_of (s3Map (file_task e x st))) xs = uploaded_of e (map_of (s3Map st)) xs"
    unfolding uploaded_of_def using p by simp
  from Cons.prems have d: "distinct xs" by simp
  show ?case
    using Cons.IH[OF d, of "file_task e x st"]
    by (simp add: s p f u) (simp add: file_task_cases skips_of_def puts_of_def uploaded_of_def failures_of_def split: action.splits)
qed

lemma fold_task_keys_closed:
  assumes "distinct xs"
  shows "map fst (s3Map (fold (file_task e) xs st)) =
         [k \<leftarrow> map fst (s3Map st).
            k \<notin> set (skips_of e (map_of (s3Map st)) xs)
          \<and> k \<notin> fst ` set (uploaded_of e (map_of (s3Map st)) xs)]"
  using assms
proof (induction xs arbitrary: st)
  case Nil
  then show ?case by (simp add: skips_of_def puts_of_def uploaded_of_def)
next
  case (Cons x xs)
  have eq: "\<And>y. y \<in> set xs \<Longrightarrow> map_of (s3Map (file_task e x st)) y = map_of (s3Map st) y"
    using Cons.prems by (auto intro: file_task_map_of_other)
  have s: "skips_of e (map_of (s3Map (file_task e x st))) xs = skips_of e (map_of (s3Map st)) xs"
    unfolding skips_of_def using eq by (auto intro: filter_cong)
  have p: "puts_of e (map_of (s3Map (file_task e x st))) xs = puts_of e (map_of (s3Map st)) xs"
    unfolding puts_of_def using eq by (auto intro!: arg_cong[where f=concat] map_cong)
  have u: "uploaded_of e (map_of (s3Map (file_task e x st))) xs = uploaded_of e (map_of (s3Map st)) xs"
    unfolding uploaded_of_def using p by simp
  from Cons.prems have d: "distinct xs" by simp
  have step: "map fst (s3Map (file_task e x st)) =
        [k \<leftarrow> map fst (s3Map st). k \<notin> set (skips_of e (map_of (s3Map st)) [x])
            \<and> k \<notin> fst ` set (uploaded_of e (map_of (s3Map st)) [x])]"
  proof (cases "action_of e (map_of (s3Map st) x) x")
    case Skip
    then show ?thesis
      by (simp add: file_task_cases skips_of_def puts_of_def uploaded_of_def delete_keys
            removeAll_filter_not_eq) (metis)
  next
    case (Upload d)
    then show ?thesis
      by (cases "putObject e x d")
         (simp_all add: file_task_cases skips_of_def puts_of_def uploaded_of_def delete_keys
            removeAll_filter_not_eq, metis)
  next
    case (Fail err)
    then show ?thesis
      by (simp add: file_task_cases skips_of_def puts_of_def uploaded_of_def)
  qed
  have app: "skips_of e m (x # xs) = skips_of e m [x] @ skips_of e m xs"
            "uploaded_of e m (x # xs) = uploaded_of e m [x] @ uploaded_of e m xs" for m
    by (simp_all add: skips_of_def uploaded_of_def puts_of_def)
  show ?case
    using Cons.IH[OF d, of "file_task e x st"]
    by (simp only: fold_simps s u step app o_apply) (auto intro: filter_cong)
qed

lemma map_of_fold_update:
  "map_of (fold (\<lambda>b a. AList.update (Key b) b a) fs acc) k =
     (case [b \<leftarrow> rev fs. Key b = k] of [] \<Rightarrow> map_of acc k | b # _ \<Rightarrow> Some b)"
proof (induction fs arbitrary: acc)
  case Nil
  then show ?case by simp
next
  case (Cons f fs)
  show ?case
    by (simp add: Cons.IH update_conv' split: list.splits)
qed

lemma keys_fold_update:
  "fst ` set (fold (\<lambda>b a. AList.update (Key b) b a) fs acc) = Key ` set fs \<union> fst ` set acc"
  by (induction fs arbitrary: acc) (auto simp: dom_update)

lemma distinct_fold_update:
  "distinct (map fst acc) \<Longrightarrow> distinct (map fst (fold (\<lambda>b a. AList.update (Key b) b a) fs acc))"
  by (induction fs arbitrary: acc) (auto simp: distinct_update)

lemma build_s3Map_keys: "fst ` set (build_s3Map fs) = Key ` set fs"
  by (simp add: build_s3Map_def keys_fold_update)

lemma build_s3Map_distinct: "distinct (map fst (build_s3Map fs))"
  by (simp add: build_s3Map_def distinct_fold_update)

lemma build_s3Map_lookup:
  "map_of (build_s3Map fs) k = (case [b \<leftarrow> rev fs. Key b = k] of [] \<Rightarrow> None | b # _ \<Rightarrow> Some b)"
  by (simp add: build_s3Map_def map_of_fold_update split: list.splits)

section \<open>The claims about \<open>main\<close>\<close>

subsection \<open>Extra remote keys\<close>

lemma file_task_failures_mono:
  "\<exists>fs. failures (file_task e x st) = failures st @ fs"
  by (simp add: file_task_cases split: action.splits)

lemma file_task_no_failure:
  assumes "failures (file_task e x st) = []"
  shows "failures st = []"
    and "fst ` set (s3Map (file_task e x st)) = fst ` set (s3Map st) - {x}"
    and "set (skipped (file_task e x st)) \<union> fst ` set (uploaded (file_task e x st))
         = insert x (set (skipped st) \<union> fst ` set (uploaded st))"
proof -
  show "failures st = []" using assms file_task_failures_mono[of e x st] by auto
  have k: "fst ` set (AList.delete x (s3Map st)) = fst ` set (s3Map st) - {x}"
    using delete_keys[of x "s3Map st"] by (metis set_map set_removeAll)
  show "fst ` set (s3Map (file_task e x st)) = fst ` set (s3Map st) - {x}"
    using assms k by (auto simp: file_task_cases split: action.splits if_splits)
  show "set (skipped (file_task e x st)) \<union> fst ` set (uploaded (file_task e x st))
         = insert x (set (skipped st) \<union> fst ` set (uploaded st))"
    using assms by (auto simp: file_task_cases split: action.splits if_splits)
qed

lemma fold_task_no_failure:
  assumes "failures (fold (file_task e) xs st) = []"
  shows "failures st = []
       \<and> fst ` set (s3Map (fold (file_task e) xs st)) = fst ` set (s3Map st) - set xs
       \<and> set (skipped (fold (file_task e) xs st)) \<union> fst ` set (uploaded (fold (file_task e) xs st))
         = set xs \<union> (set (skipped st) \<union> fst ` set (uploaded st))"
  using assms
proof (induction xs arbitrary: st)
  case Nil
  then show ?case by simp
next
  case (Cons x xs)
  from Cons.prems have f: "failures (fold (file_task e) xs (file_task e x st)) = []" by simp
  note ih = Cons.IH[OF f]
  from ih have f1: "failures (file_task e x st) = []" by simp
  note st = file_task_no_failure[OF f1]
  show ?case using ih st by auto
qed

lemma main_Done_iff:
  "outcome (main e s3Files localFiles) = Done \<longleftrightarrow>
     failures (upload_phase e s3Files localFiles) = []
     \<and> list_all (deleteObject e) (map fst (s3Map (upload_phase e s3Files localFiles)))"
  by (simp add: main_def Let_def)

lemma main_removing:
  "failures (upload_phase e s3Files localFiles) = [] \<Longrightarrow>
   removing (main e s3Files localFiles) = map fst (s3Map (upload_phase e s3Files localFiles))"
  by (simp add: main_def Let_def)

lemma main_uploads [simp]: "uploads (main e s3Files localFiles) = upload_phase e s3Files localFiles"
  by (simp add: main_def Let_def)


lemma demo_run:
  "main demo_env demo_remote demo_local =
     \<lparr>uploads = \<lparr>s3Map = [(''c.css'', \<lparr>Key = ''c.css'', ETag = Some (quoted ''aa676972bbd2b68e94ef8e91e81d20be'')\<rparr>)],
                 skipped = [''a.html''], puts = [(''b.png'', ''B'')], uploaded = [(''b.png'', ''B'')],
                 failures = []\<rparr>,
      removing = [''c.css''], removed = [''c.css''], outcome = Done\<rparr>"
  by code_simp


subsection \<open>The decision for one file\<close>

lemma set_skips_of: "set (skips_of e m xs) = {x \<in> set xs. action_of e (m x) x = Skip}"
  by (auto simp: skips_of_def)

lemma set_puts_of: "set (puts_of e m xs) = {(x, d). x \<in> set xs \<and> action_of e (m x) x = Upload d}"
  by (auto simp: puts_of_def split: action.splits)

lemma set_uploaded_of:
  "set (uploaded_of e m xs) = {(x, d). x \<in> set xs \<and> action_of e (m x) x = Upload d \<and> putObject e x d}"
  by (auto simp: uploaded_of_def set_puts_of)

lemma set_failures_of:
  "set (failures_of e m xs) =
     {(x, err). x \<in> set xs \<and> (action_of e (m x) x = Fail err
         \<or> (err = PutError \<and> (\<exists>d. action_of e (m x) x = Upload d \<and> \<not> putObject e x d)))}"
  by (auto simp: failures_of_def split: action.splits if_splits)

lemma upload_phase_closed:
  assumes "distinct (relative_paths localFiles)"
  shows "skipped (upload_phase e s3Files localFiles)
           = skips_of e (map_of (build_s3Map s3Files)) (relative_paths localFiles)"
    and "puts (upload_phase e s3Files localFiles)
           = puts_of e (map_of (build_s3Map s3Files)) (relative_paths localFiles)"
    and "uploaded (upload_phase e s3Files localFiles)
           = uploaded_of e (map_of (build_s3Map s3Files)) (relative_paths localFiles)"
    and "failures (upload_phase e s3Files localFiles)
           = failures_of e (map_of (build_s3Map s3Files)) (relative_paths localFiles)"
    and "map fst (s3Map (upload_phase e s3Files localFiles))
           = [k \<leftarrow> map fst (build_s3Map s3Files).
                k \<notin> set (skips_of e (map_of (build_s3Map s3Files)) (relative_paths localFiles))
              \<and> k \<notin> fst ` set (uploaded_of e (map_of (build_s3Map s3Files)) (relative_paths localFiles))]"
  using fold_task_closed[OF assms, of e] fold_task_keys_closed[OF assms, of e]
  by (simp_all add: upload_phase_def)

lemma removing_subset:
  "set (removing (main e s3Files localFiles)) \<subseteq> fst ` set (s3Map (upload_phase e s3Files localFiles))"
  by (simp add: main_def Let_def)

lemma removed_subset:
  "set (removed (main e s3Files localFiles)) \<subseteq> set (removing (main e s3Files localFiles))"
  by (auto simp add: main_def Let_def)

lemma action_skip_string:
  assumes "readFile e (distDir @ x) = Some data" "ETag ob = Some t"
    "jsonParse t = Some (JString (map of_char (digest_hex (md5 e data))))"
  shows "action_of e (Some ob) x = Skip"
  using assms by (simp add: action_of_def decode_s3hash_def)

text \<open>
  Claim C1. A local file whose content hash (the lower-case hexadecimal MD5 digest of its
  bytes) equals the JSON-decoded entity tag of the remote object under the same relative
  path is skipped: no put is issued for it, its key is claimed (removed from \<open>s3Map\<close>),
  and the object is not deleted in the run. The local relative paths are distinct, as the
  paths of a directory walk are.
\<close>

theorem equal_hash_skipped:
  assumes "distinct (relative_paths localFiles)"
    and "x \<in> set (relative_paths localFiles)"
    and "readFile e (distDir @ x) = Some data"
    and "map_of (build_s3Map s3Files) x = Some ob"
    and "ETag ob = Some t"
    and "jsonParse t = Some (JString (map of_char (digest_hex (md5 e data))))"
  shows "x \<in> set (skipped (uploads (main e s3Files localFiles)))
       \<and> x \<notin> fst ` set (puts (uploads (main e s3Files localFiles)))
       \<and> x \<notin> fst ` set (s3Map (uploads (main e s3Files localFiles)))
       \<and> x \<notin> set (removing (main e s3Files localFiles))
       \<and> x \<notin> set (removed (main e s3Files localFiles))"
proof -
  let ?m = "map_of (build_s3Map s3Files)" and ?xs = "relative_paths localFiles"
  have a: "action_of e (?m x) x = Skip"
    using action_skip_string[OF assms(3,5,6)] assms(4) by simp
  note cl = upload_phase_closed[OF assms(1), of e s3Files]
  have 1: "x \<in> set (skipped (upload_phase e s3Files localFiles))"
    using a assms(2) by (simp add: cl set_skips_of)
  have 2: "x \<notin> fst ` set (puts (upload_phase e s3Files localFiles))"
    using a by (auto simp: cl set_puts_of)
  have "x \<notin> set (map fst (s3Map (upload_phase e s3Files localFiles)))"
    using a assms(2) by (simp add: cl(5) set_skips_of)
  then have 3: "x \<notin> fst ` set (s3Map (upload_phase e s3Files localFiles))" by simp
  have 4: "x \<notin> set (removing (main e s3Files localFiles))"
    using 3 removing_subset[of e s3Files localFiles] by blast
  have 5: "x \<notin> set (removed (main e s3Files localFiles))"
    using 4 removed_subset[of e s3Files localFiles] by blast
  show ?thesis using 1 2 3 4 5 by simp
qed

theorem equal_hash_skipped_witness:
  "distinct (relative_paths demo_local)
   \<and> ''a.html'' \<in> set (relative_paths demo_local)
   \<and> readFile demo_env (distDir @ ''a.html'') = Some ''hi''
   \<and> map_of (build_s3Map demo_remote) ''a.html''
        = Some \<lparr>Key = ''a.html'', ETag = Some (quoted ''49f68a5c8493ec2c0bf489821c21fc3b'')\<rparr>
   \<and> jsonParse (quoted ''49f68a5c8493ec2c0bf489821c21fc3b'')
        = Some (JString (map of_char (digest_hex (md5 demo_env ''hi''))))
   \<and> ''a.html'' \<in> set (skipped (uploads (main demo_env demo_remote demo_local)))
   \<and> ''a.html'' \<notin> fst ` set (puts (uploads (main demo_env demo_remote demo_local)))
   \<and> ''a.html'' \<notin> set (removing (main demo_env demo_remote demo_local))"
proof -
  have 1: "distinct (relative_paths demo_local)" by code_simp
  have 2: "''a.html'' \<in> set (relative_paths demo_local)" by code_simp
  have 3: "readFile demo_env (distDir @ ''a.html'') = Some ''hi''" by code_simp
  have 4: "map_of (build_s3Map demo_remote) ''a.html''
        = Some \<lparr>Key = ''a.html'', ETag = Some (quoted ''49f68a5c8493ec2c0bf489821c21fc3b'')\<rparr>"
    by code_simp
  have 5: "ETag \<lparr>Key = ''a.html'', ETag = Some (quoted ''49f68a5c8493ec2c0bf489821c21fc3b'')\<rparr>
        = Some (quoted ''49f68a5c8493ec2c0bf489821c21fc3b'')" by simp
  have 6: "jsonParse (quoted ''49f68a5c8493ec2c0bf489821c21fc3b'')
        = Some (JString (map of_char (digest_hex (md5 demo_env ''hi''))))" by code_simp
  from equal_hash_skipped[OF 1 2 3 4 5 6] 1 2 3 4 6 show ?thesis by blast
qed

lemma action_upload_no_etag:
  assumes "readFile e (distDir @ x) = Some data" "ETag ob = None"
  shows "action_of e (Some ob) x = Upload data"
  using assms by (simp add: action_of_def decode_s3hash_def)

text \<open>
  Claim C10. A local file whose remote record has no entity tag is uploaded: the absent
  tag is not decoded (\<open>s3hash\<close> stays \<open>undefined\<close>), \<open>undefined\<close> equals no local
  hash, the file is not skipped, and neither the read nor the decoding rejects its task.
\<close>

theorem absent_etag_uploads:
  assumes "distinct (relative_paths localFiles)"
    and "x \<in> set (relative_paths localFiles)"
    and "readFile e (distDir @ x) = Some data"
    and "map_of (build_s3Map s3Files) x = Some ob"
    and "ETag ob = None"
  shows "decode_s3hash (Some ob) = Inr None
       \<and> \<not> looseEq (coerceEq e) None (digest_hex (md5 e data))
       \<and> (x, data) \<in> set (puts (uploads (main e s3Files localFiles)))
       \<and> x \<notin> set (skipped (uploads (main e s3Files localFiles)))
       \<and> (x, ReadError) \<notin> set (failures (uploads (main e s3Files localFiles)))
       \<and> (x, SyntaxError) \<notin> set (failures (uploads (main e s3Files localFiles)))"
proof -
  let ?m = "map_of (build_s3Map s3Files)" and ?xs = "relative_paths localFiles"
  have a: "action_of e (?m x) x = Upload data"
    using action_upload_no_etag[OF assms(3,5)] assms(4) by simp
  note cl = upload_phase_closed[OF assms(1), of e s3Files]
  have 1: "(x, data) \<in> set (puts (upload_phase e s3Files localFiles))"
    using a assms(2) by (simp add: cl set_puts_of)
  have 2: "x \<notin> set (skipped (upload_phase e s3Files localFiles))"
    using a by (simp add: cl set_skips_of)
  have 3: "(x, ReadError) \<notin> set (failures (upload_phase e s3Files localFiles))"
          "(x, SyntaxError) \<notin> set (failures (upload_phase e s3Files localFiles))"
    using a by (simp_all add: cl set_failures_of)
  have 4: "decode_s3hash (Some ob) = Inr None" using assms(5) by (simp add: decode_s3hash_def)
  show ?thesis using 1 2 3 4 by simp
qed

theorem absent_etag_uploads_witness:
  "distinct (relative_paths demo_local)
   \<and> ''a.html'' \<in> set (relative_paths demo_local)
   \<and> readFile demo_env (distDir @ ''a.html'') = Some ''hi''
   \<and> map_of (build_s3Map no_etag_remote) ''a.html'' = Some \<lparr>Key = ''a.html'', ETag = None\<rparr>
   \<and> (''a.html'', ''hi'') \<in> set (puts (uploads (main demo_env no_etag_remote demo_local)))
   \<and> ''a.html'' \<notin> set (skipped (uploads (main demo_env no_etag_remote demo_local)))
   \<and> outcome (main demo_env no_etag_remote demo_local) = Done"
proof -
  have 1: "distinct (relative_paths demo_local)" by code_simp
  have 2: "''a.html'' \<in> set (relative_paths demo_local)" by code_simp
  have 3: "readFile demo_env (distDir @ ''a.html'') = Some ''hi''" by code_simp
  have 4: "map_of (build_s3Map no_etag_remote) ''a.html'' = Some \<lparr>Key = ''a.html'', ETag = None\<rparr>"
    by code_simp
  have 5: "ETag \<lparr>Key = ''a.html'', ETag = None\<rparr> = None" by simp
  have 6: "outcome (main demo_env no_etag_remote demo_local) = Done" by code_simp
  from absent_etag_uploads[OF 1 2 3 4 5] 1 2 3 4 6 show ?thesis by blast
qed

subsection \<open>Entity tags that are not the hash\<close>

lemma hex_digit_in: "hex_digit n \<in> set ''0123456789abcdef''"
proof -
  have "n mod 16 < length ''0123456789abcdef''" by simp
  then show ?thesis unfolding hex_digit_def by (rule nth_mem)
qed

lemma digest_hex_chars: "c \<in> set (digest_hex bs) \<Longrightarrow> c \<in> set ''0123456789abcdef''"
  using hex_digit_in by (auto simp: digest_hex_def hex_byte_def)

lemma inj_of_char_nat: "map (of_char :: char \<Rightarrow> nat) s = map of_char t \<Longrightarrow> s = t"
  using inj_of_char[where ?'a = nat] by (simp add: inj_map_eq_map)







subsection \<open>The plan as a partition\<close>




subsection \<open>Idempotence\<close>

lemma parse_chars_plain:
  assumes "\<forall>c \<in> set h. c \<noteq> CHR 0x22 \<and> c \<noteq> CHR 0x5C \<and> 32 \<le> (of_char c :: nat)"
  shows "parse_chars (h @ CHR 0x22 # rest) acc = Some (rev acc @ map of_char h, rest)"
  using assms by (induction h arbitrary: acc) auto

lemma hex_char_plain:
  assumes "c \<in> set ''0123456789abcdef''"
  shows "c \<noteq> CHR 0x22 \<and> c \<noteq> CHR 0x5C \<and> 32 \<le> (of_char c :: nat)"
  using assms by auto

lemma jsonParse_quoted:
  assumes "\<forall>c \<in> set h. c \<noteq> CHR 0x22 \<and> c \<noteq> CHR 0x5C \<and> 32 \<le> (of_char c :: nat)"
  shows "jsonParse (quoted h) = Some (JString (map of_char h))"
proof -
  have ws: "skip_ws (quoted h) = quoted h" by (simp add: skip_ws_def quoted_def is_ws_def)
  have "parse_value (quoted h) = Some (JString (map of_char h), [])"
    apply (subst parse_value.simps)
    apply (simp only: ws)
    apply (simp add: quoted_def parse_chars_plain[OF assms, of "[]" "[]", simplified])
    done
  then show ?thesis by (simp add: jsonParse_def skip_ws_def)
qed

lemma jsonParse_etag_of:
  "jsonParse (etag_of e data) = Some (JString (map of_char (digest_hex (md5 e data))))"
  unfolding etag_of_def
  by (rule jsonParse_quoted) (use digest_hex_chars hex_char_plain in blast)

lemma main_Done_removing:
  assumes "outcome (main e s3Files localFiles) = Done"
  shows "set (removing (main e s3Files localFiles))
           = Key ` set s3Files - set (relative_paths localFiles)
       \<and> removed (main e s3Files localFiles) = removing (main e s3Files localFiles)"
proof -
  let ?st = "upload_phase e s3Files localFiles"
  from assms have nf: "failures ?st = []" and ok: "list_all (deleteObject e) (map fst (s3Map ?st))"
    by (simp_all add: main_Done_iff)
  have "fst ` set (s3Map ?st) = Key ` set s3Files - set (relative_paths localFiles)"
    using fold_task_no_failure[of e "relative_paths localFiles"] nf
    by (simp add: upload_phase_def build_s3Map_keys)
  moreover have "removing (main e s3Files localFiles) = map fst (s3Map ?st)"
    using nf by (rule main_removing)
  moreover have "removed (main e s3Files localFiles) = removing (main e s3Files localFiles)"
    using nf ok by (simp add: main_def Let_def list_all_iff)
  ultimately show ?thesis by simp
qed

lemma action_upload_read: "action_of e entry x = Upload d \<Longrightarrow> readFile e (distDir @ x) = Some d"
  by (auto simp: action_of_def split: option.splits sum.splits if_splits)

text \<open>
  Claim C3. Idempotence: after a run that is done, a second run over the same local files
  and the store that the first run left (each put reflected as the quoted MD5 digest of
  the bytes) uploads nothing and deletes nothing: every local file is skipped and
  \<open>s3Map\<close> is claimed entirely.
\<close>

theorem second_run_idle:
  assumes d: "distinct (relative_paths localFiles)"
    and dn: "outcome (main e s3Files localFiles) = Done"
    and store: "map_of (build_s3Map s3Files2) = store_after e s3Files (main e s3Files localFiles)"
  shows "puts (uploads (main e s3Files2 localFiles)) = []
       \<and> skipped (uploads (main e s3Files2 localFiles)) = relative_paths localFiles
       \<and> s3Map (uploads (main e s3Files2 localFiles)) = []
       \<and> removing (main e s3Files2 localFiles) = []
       \<and> outcome (main e s3Files2 localFiles) = Done"
proof -
  let ?xs = "relative_paths localFiles"
  let ?m1 = "map_of (build_s3Map s3Files)" and ?m2 = "map_of (build_s3Map s3Files2)"
  let ?st1 = "upload_phase e s3Files localFiles" and ?st2 = "upload_phase e s3Files2 localFiles"
  let ?r1 = "main e s3Files localFiles"
  note cl1 = upload_phase_closed[OF d, of e s3Files]
  note cl2 = upload_phase_closed[OF d, of e s3Files2]
  from dn have nf1: "failures ?st1 = []" by (simp add: main_Done_iff)
  have del: "set (removing ?r1) = Key ` set s3Files - set ?xs" "removed ?r1 = removing ?r1"
    using main_Done_removing[OF dn] by simp_all
  have up_keys: "fst ` set (uploaded ?st1) \<subseteq> set ?xs"
    by (auto simp: cl1 set_uploaded_of)
  have m2: "\<And>k. ?m2 k = store_after e s3Files ?r1 k" using store by simp
  have skip2: "action_of e (?m2 x) x = Skip" if x: "x \<in> set ?xs" for x
  proof -
    have nr: "x \<notin> set (removed ?r1)" using del x by simp
    show ?thesis
    proof (cases "action_of e (?m1 x) x")
      case Skip
      have "x \<notin> fst ` set (uploaded ?st1)" using Skip by (auto simp: cl1 set_uploaded_of)
      then have "map_of (uploaded ?st1) x = None" by (simp add: map_of_eq_None_iff)
      then have "?m2 x = ?m1 x" using nr by (simp add: m2 store_after_def)
      then show ?thesis using Skip by simp
    next
      case (Upload dd)
      have "(x, PutError) \<notin> set (failures_of e ?m1 ?xs)" using nf1 cl1(4) by simp
      then have ok: "putObject e x dd" using Upload x by (auto simp: set_failures_of)
      then have "(x, dd) \<in> set (uploaded ?st1)" using Upload x by (simp add: cl1 set_uploaded_of)
      then obtain d' where d': "map_of (uploaded ?st1) x = Some d'"
        by (metis weak_map_of_SomeI)
      then have "(x, d') \<in> set (uploaded ?st1)" by (rule map_of_SomeD)
      then have "d' = dd" using Upload by (simp add: cl1 set_uploaded_of)
      then have e2: "?m2 x = Some \<lparr>Key = x, ETag = Some (etag_of e dd)\<rparr>"
        using nr d' by (simp add: m2 store_after_def)
      have rd: "readFile e (distDir @ x) = Some dd" using Upload by (rule action_upload_read)
      have "action_of e (Some \<lparr>Key = x, ETag = Some (etag_of e dd)\<rparr>) x = Skip"
        by (rule action_skip_string[OF rd _ jsonParse_etag_of]) simp
      then show ?thesis using e2 by simp
    next
      case (Fail err)
      have "(x, err) \<notin> set (failures_of e ?m1 ?xs)" using nf1 cl1(4) by simp
      then show ?thesis using Fail x by (simp add: set_failures_of)
    qed
  qed
  have s2: "skips_of e ?m2 ?xs = ?xs"
    unfolding skips_of_def using skip2 by (simp add: filter_id_conv)
  have p2: "puts_of e ?m2 ?xs = []"
    unfolding puts_of_def using skip2 by simp
  have f2: "failures_of e ?m2 ?xs = []"
    unfolding failures_of_def using skip2 by simp
  have keys2: "fst ` set (build_s3Map s3Files2) \<subseteq> set ?xs"
  proof
    fix k assume "k \<in> fst ` set (build_s3Map s3Files2)"
    then have "?m2 k \<noteq> None" by (simp add: map_of_eq_None_iff)
    then have k: "store_after e s3Files ?r1 k \<noteq> None" by (simp add: m2)
    then have nr: "k \<notin> set (removed ?r1)" by (auto simp: store_after_def split: if_splits)
    show "k \<in> set ?xs"
    proof (cases "map_of (uploaded ?st1) k")
      case None
      then have "?m1 k \<noteq> None" using k nr by (simp add: store_after_def)
      then have "k \<in> Key ` set s3Files"
        using build_s3Map_keys[of s3Files] by (metis map_of_eq_None_iff)
      then show ?thesis using nr del by auto
    next
      case (Some dd)
      then have "k \<in> fst ` set (uploaded ?st1)" by (metis map_of_SomeD fst_conv image_eqI)
      then show ?thesis using up_keys by blast
    qed
  qed
  have "map fst (s3Map ?st2) = []"
    using keys2 by (auto simp: cl2(5) s2 filter_empty_conv)
  then have e2: "s3Map ?st2 = []" by simp
  have nf2: "failures ?st2 = []" by (simp add: cl2 f2)
  show ?thesis
    using e2 nf2 by (simp add: cl2 s2 p2 main_def Let_def)
qed

lemma demo_store:
  "map_of (build_s3Map demo_remote2) = store_after demo_env demo_remote (main demo_env demo_remote demo_local)"
proof
  fix k
  have 1: "build_s3Map demo_remote2 =
     [(''a.html'', \<lparr>Key = ''a.html'', ETag = Some (quoted ''49f68a5c8493ec2c0bf489821c21fc3b'')\<rparr>),
      (''b.png'', \<lparr>Key = ''b.png'', ETag = Some (quoted ''9d5ed678fe57bcca610140957afab571'')\<rparr>)]"
    by code_simp
  have 2: "build_s3Map demo_remote =
     [(''a.html'', \<lparr>Key = ''a.html'', ETag = Some (quoted ''49f68a5c8493ec2c0bf489821c21fc3b'')\<rparr>),
      (''c.css'', \<lparr>Key = ''c.css'', ETag = Some (quoted ''aa676972bbd2b68e94ef8e91e81d20be'')\<rparr>)]"
    by code_simp
  have 3: "etag_of demo_env ''B'' = quoted ''9d5ed678fe57bcca610140957afab571''" by code_simp
  show "map_of (build_s3Map demo_remote2) k
        = store_after demo_env demo_remote (main demo_env demo_remote demo_local) k"
    unfolding store_after_def demo_run 1 2 by (simp add: 3)
qed

theorem second_run_idle_witness:
  "distinct (relative_paths demo_local)
   \<and> outcome (main demo_env demo_remote demo_local) = Done
   \<and> map_of (build_s3Map demo_remote2)
       = store_after demo_env demo_remote (main demo_env demo_remote demo_local)
   \<and> puts (uploads (main demo_env demo_remote2 demo_local)) = []
   \<and> skipped (uploads (main demo_env demo_remote2 demo_local)) = [''a.html'', ''b.png'']
   \<and> removing (main demo_env demo_remote2 demo_local) = []
   \<and> outcome (main demo_env demo_remote2 demo_local) = Done"
proof -
  have 1: "distinct (relative_paths demo_local)" by code_simp
  have 2: "outcome (main demo_env demo_remote demo_local) = Done" by (simp add: demo_run)
  have 3: "relative_paths demo_local = [''a.html'', ''b.png'']" by code_simp
  from second_run_idle[OF 1 2 demo_store] 1 2 demo_store 3 show ?thesis by simp
qed

section \<open>The walk and the ignore array\<close>

lemma concat_walk_simps [simp]:
  "logged (concat_walk a b) = logged a @ logged b"
  "result (concat_walk a b) =
     (case result a of None \<Rightarrow> None
      | Some xs \<Rightarrow> (case result b of None \<Rightarrow> None | Some ys \<Rightarrow> Some (xs @ ys)))"
  by (simp_all add: concat_walk_def)






section \<open>The listing and its failures\<close>

lemma settle_simps [simp]:
  "promise st \<noteq> Pending \<Longrightarrow> promise (settle p st) = promise st"
  "promise st = Pending \<Longrightarrow> promise (settle p st) = p"
  "requests (settle p st) = requests st"
  "keys (settle p st) = keys st"
  "thrown (settle p st) = thrown st"
  by (simp_all add: settle_def)

lemma listObjects_simps [simp]:
  "promise (listObjects m st) = promise st"
  "requests (listObjects m st) = requests st @ [m]"
  "keys (listObjects m st) = keys st"
  "thrown (listObjects m st) = thrown st"
  by (simp_all add: listObjects_def)

lemma reject_if_failed_simps [simp]:
  "promise st \<noteq> Pending \<Longrightarrow> promise (reject_if_failed err data st) = promise st"
  "promise st = Pending \<Longrightarrow> promise (reject_if_failed err data st)
      = (if err \<noteq> None \<or> data = None then RejectedWith err else Pending)"
  "requests (reject_if_failed err data st) = requests st"
  "keys (reject_if_failed err data st) = keys st"
  "thrown (reject_if_failed err data st) = thrown st"
  by (simp_all add: reject_if_failed_def)

lemma push_contents_simps [simp]:
  "promise (push_contents d st) = promise st"
  "requests (push_contents d st) = requests st"
  "keys (push_contents d st) = keys st @ Contents d"
  "thrown (push_contents d st) = thrown st"
  by (simp_all add: push_contents_def)

lemma throw_TypeError_simps [simp]:
  "promise (throw_TypeError st) = promise st"
  "requests (throw_TypeError st) = requests st"
  "keys (throw_TypeError st) = keys st"
  "thrown (throw_TypeError st) = True"
  by (simp_all add: throw_TypeError_def)

lemma iterPage_settled:
  "promise st \<noteq> Pending \<Longrightarrow> promise (iterPage rs marker st) = promise st"
proof (induction rs arbitrary: marker st)
  case Nil
  then show ?case by simp
next
  case (Cons r rs)
  obtain err data where r: "r = (err, data)" by (cases r)
  show ?case
    using Cons.prems Cons.IH
    by (simp add: r Let_def split: option.splits list.splits)
qed

lemma iterPage_requests_length:
  "length (requests st) < length (requests (iterPage rs marker st))"
proof (induction rs arbitrary: marker st)
  case Nil
  then show ?case by simp
next
  case (Cons r rs)
  obtain err data where r: "r = (err, data)" by (cases r)
  have ih: "\<And>m st'. length (requests st') = Suc (length (requests st))
              \<Longrightarrow> length (requests st) < length (requests (iterPage rs m st'))"
    using Cons.IH by (metis Suc_lessD)
  show ?case
    by (auto simp: r Let_def ih split: option.splits list.splits)
qed

text \<open>The first failing response that is requested rejects the promise with its error.\<close>

lemma iterPage_first_bad:
  assumes "promise st = Pending"
    and "i < length rs" and "length (requests st) + i < length (requests (iterPage rs marker st))"
    and "bad_response (rs ! i)" and "\<forall>j < i. \<not> bad_response (rs ! j)"
  shows "promise (iterPage rs marker st) = RejectedWith (fst (rs ! i))"
  using assms
proof (induction rs arbitrary: marker st i)
  case Nil
  then show ?case by simp
next
  case (Cons r rs)
  obtain err data where r: "r = (err, data)" by (cases r)
  show ?case
  proof (cases i)
    case 0
    then have bad: "err \<noteq> None \<or> data = None" using Cons.prems(4) by (simp add: r bad_response_def)
    let ?st1 = "reject_if_failed err data (listObjects marker st)"
    have p1: "promise ?st1 = RejectedWith err" using bad Cons.prems(1) by simp
    have "promise (iterPage (r # rs) marker st) = RejectedWith err"
    proof (cases data)
      case None
      then show ?thesis using p1 by (simp add: r)
    next
      case (Some d)
      have p1': "promise (reject_if_failed err (Some d) (listObjects marker st)) = RejectedWith err"
        using p1 Some by simp
      show ?thesis
        by (cases "Contents d") (simp_all add: r Some Let_def iterPage_settled p1')
    qed
    then show ?thesis using 0 by (simp add: r)
  next
    case (Suc i')
    have good: "err = None" "data \<noteq> None"
      using Cons.prems(5) Suc by (auto simp: r bad_response_def)
    then obtain d where d: "data = Some d" by auto
    let ?st2 = "push_contents d (reject_if_failed err data (listObjects marker st))"
    have p2: "promise ?st2 = Pending" using good Cons.prems(1) by simp
    have rq: "length (requests ?st2) = Suc (length (requests st))" by simp
    show ?thesis
    proof (cases "IsTruncated d \<and> Contents d \<noteq> []")
      case True
      then obtain c cs where c: "Contents d = c # cs" by (cases "Contents d") auto
      let ?m = "Some (Key (last (Contents d)))"
      have unf: "iterPage (r # rs) marker st = iterPage rs ?m ?st2"
        using True c d by (simp add: r Let_def)
      have "promise (iterPage rs ?m ?st2) = RejectedWith (fst (rs ! i'))"
      proof (rule Cons.IH[OF p2])
        show "i' < length rs" using Cons.prems(2) Suc by simp
        show "length (requests ?st2) + i' < length (requests (iterPage rs ?m ?st2))"
          using Cons.prems(3) Suc unf rq by simp
        show "bad_response (rs ! i')" using Cons.prems(4) Suc by simp
        show "\<forall>j<i'. \<not> bad_response (rs ! j)" using Cons.prems(5) Suc by auto
      qed
      then show ?thesis using unf Suc by simp
    next
      case False
      then have "length (requests (iterPage (r # rs) marker st)) = Suc (length (requests st))"
        using d by (auto simp: r Let_def split: list.splits)
      then show ?thesis using Cons.prems(3) Suc by simp
    qed
  qed
qed

lemma iterS3_failing_listing:
  "iterS3 failing_listing =
     \<lparr>keys = [\<lparr>Key = ''a.html'', ETag = Some (quoted ''49f68a5c8493ec2c0bf489821c21fc3b'')\<rparr>],
      promise = RejectedWith (Some ''NetworkingError''),
      requests = [None, Some ''a.html''],
      thrown = True\<rparr>"
  by code_simp

text \<open>
  Claim C6. The remote listing fails whenever a page request that it issues errors or
  returns a \<open>null\<close> page: the promise is rejected with the \<open>err\<close> of the first such
  response (so no object sequence is returned), and it is rejected for any such response.
  On an empty bucket, a single page that is empty and not truncated, it resolves to the
  empty sequence after one request.
\<close>

theorem iterS3_rejects:
  "(\<forall>i. i < length rs \<and> i < length (requests (iterS3 rs)) \<and> bad_response (rs ! i)
         \<and> (\<forall>j<i. \<not> bad_response (rs ! j))
        \<longrightarrow> promise (iterS3 rs) = RejectedWith (fst (rs ! i)))
   \<and> (\<forall>i. i < length rs \<and> i < length (requests (iterS3 rs)) \<and> bad_response (rs ! i)
        \<longrightarrow> (\<exists>err. promise (iterS3 rs) = RejectedWith err))
   \<and> promise (iterS3 ((None, Some \<lparr>Contents = [], IsTruncated = False\<rparr>) # rest)) = Resolved []
   \<and> requests (iterS3 ((None, Some \<lparr>Contents = [], IsTruncated = False\<rparr>) # rest)) = [None]
   \<and> \<not> thrown (iterS3 ((None, Some \<lparr>Contents = [], IsTruncated = False\<rparr>) # rest))"
proof (intro conjI allI impI)
  let ?st0 = "\<lparr>keys = [], promise = Pending, requests = [], thrown = False\<rparr>"
  have first: "promise (iterS3 rs) = RejectedWith (fst (rs ! i))"
    if "i < length rs" "i < length (requests (iterS3 rs))" "bad_response (rs ! i)"
       "\<forall>j<i. \<not> bad_response (rs ! j)" for i
    unfolding iterS3_def
    by (rule iterPage_first_bad) (use that in \<open>simp_all add: iterS3_def\<close>)
  {
    fix i
    assume "i < length rs \<and> i < length (requests (iterS3 rs)) \<and> bad_response (rs ! i)
         \<and> (\<forall>j<i. \<not> bad_response (rs ! j))"
    then show "promise (iterS3 rs) = RejectedWith (fst (rs ! i))" using first by blast
  }
  {
    fix i
    assume a: "i < length rs \<and> i < length (requests (iterS3 rs)) \<and> bad_response (rs ! i)"
    define k where "k = (LEAST j. bad_response (rs ! j))"
    have kb: "bad_response (rs ! k)" unfolding k_def using a by (metis (mono_tags, lifting) LeastI)
    have kl: "k \<le> i" unfolding k_def using a by (simp add: Least_le)
    have km: "\<forall>j<k. \<not> bad_response (rs ! j)" unfolding k_def using not_less_Least by blast
    have "promise (iterS3 rs) = RejectedWith (fst (rs ! k))"
      using first[of k] kb kl km a by simp
    then show "\<exists>err. promise (iterS3 rs) = RejectedWith err" by blast
  }
  show "promise (iterS3 ((None, Some \<lparr>Contents = [], IsTruncated = False\<rparr>) # rest)) = Resolved []"
    by (simp add: iterS3_def Let_def)
  show "requests (iterS3 ((None, Some \<lparr>Contents = [], IsTruncated = False\<rparr>) # rest)) = [None]"
    by (simp add: iterS3_def Let_def)
  show "\<not> thrown (iterS3 ((None, Some \<lparr>Contents = [], IsTruncated = False\<rparr>) # rest))"
    by (simp add: iterS3_def Let_def)
qed

theorem iterS3_rejects_witness:
  "(1::nat) < length failing_listing \<and> 1 < length (requests (iterS3 failing_listing))
   \<and> bad_response (failing_listing ! 1) \<and> \<not> bad_response (failing_listing ! 0)
   \<and> promise (iterS3 failing_listing) = RejectedWith (Some ''NetworkingError'')"
proof -
  have 1: "(1::nat) < length failing_listing" by (simp add: failing_listing_def)
  have 2: "1 < length (requests (iterS3 failing_listing))" by (simp add: iterS3_failing_listing)
  have 3: "bad_response (failing_listing ! 1)" by (simp add: failing_listing_def bad_response_def)
  have 4: "\<not> bad_response (failing_listing ! 0)" by (simp add: failing_listing_def bad_response_def)
  have 5: "\<forall>j<1. \<not> bad_response (failing_listing ! j)" using 4 by simp
  have 6: "fst (failing_listing ! 1) = Some ''NetworkingError''" by (simp add: failing_listing_def)
  have "promise (iterS3 failing_listing) = RejectedWith (fst (failing_listing ! 1))"
    using iterS3_rejects[of failing_listing] 1 2 3 5 by blast
  then show ?thesis using 1 2 3 4 6 by simp
qed

section \<open>Deletes come after the decisions\<close>

lemma barrier_initial: "barrier xs (initial s3Files xs)"
  by (simp add: barrier_def initial_def)

lemma barrier_step:
  assumes "step e xs c c'" "barrier xs c"
  shows "barrier xs c'"
  using assms
proof (induction rule: step.induct)
  case (read_done i c)
  then have nd: "\<not> deleting c"
    by (auto simp: barrier_def list_all_length split: if_splits)
  with read_done show ?case
    by (auto simp: barrier_def after_read_def nth_list_update split: action.splits)
next
  case (put_done i c data)
  then have nd: "\<not> deleting c"
    by (auto simp: barrier_def list_all_length split: if_splits)
  with put_done show ?case
    by (auto simp: barrier_def after_put_def nth_list_update)
next
  case (deletes_start c)
  then have len: "length (phases c) = length xs"
    and nodel: "list_all (\<lambda>ev. \<not> is_delete ev) (trace c)"
    and fin: "\<forall>i < length xs. phases c ! i = Finished \<longrightarrow>
               Skipping (xs ! i) \<in> set (trace c) \<or> Uploaded (xs ! i) \<in> set (trace c)"
    by (simp_all add: barrier_def)
  have allf: "\<forall>i < length xs. phases c ! i = Finished"
    using deletes_start(2) len by (simp add: list_all_length)
  have dec: "decided xs (trace c)"
    unfolding decided_def
  proof
    fix x assume "x \<in> set xs"
    then obtain i where "i < length xs" "xs ! i = x" by (auto simp: in_set_conv_nth)
    then show "Skipping x \<in> set (trace c) \<or> Uploaded x \<in> set (trace c)"
      using fin allf by auto
  qed
  have "\<exists>pre post. trace c @ map Removing (map fst (cmap c)) = pre @ map Removing (map fst (cmap c)) @ post
               \<and> list_all (\<lambda>ev. \<not> is_delete ev) pre \<and> list_all is_removed post
               \<and> decided xs pre"
    using nodel dec by (intro exI[of _ "trace c"] exI[of _ "[]"]) simp
  then show ?case
    using len deletes_start(2) by (simp add: barrier_def start_deletes_def)
next
  case (delete_done k c)
  then have d: "deleting c" by (auto simp: barrier_def split: if_splits)
  with delete_done(2) obtain pre post where
    tr: "trace c = pre @ map Removing (map fst (cmap c)) @ post"
    and pp: "list_all (\<lambda>ev. \<not> is_delete ev) pre" "list_all is_removed post" "decided xs pre"
    and rest: "length (phases c) = length xs" "list_all (\<lambda>p. p = Finished) (phases c)"
    by (auto simp: barrier_def)
  let ?post = "post @ (if deleteObject e k then [Removed k] else [])"
  have "trace (after_delete e k c) = pre @ map Removing (map fst (cmap (after_delete e k c))) @ ?post"
    using tr by (simp add: after_delete_def)
  moreover have "list_all is_removed ?post" using pp(2) by simp
  ultimately have "\<exists>pre post. trace (after_delete e k c) = pre @ map Removing (map fst (cmap (after_delete e k c))) @ post
               \<and> list_all (\<lambda>ev. \<not> is_delete ev) pre \<and> list_all is_removed post
               \<and> decided xs pre"
    using pp(1,3) by blast
  then show ?case
    using d rest by (simp add: barrier_def after_delete_def)
qed

lemma barrier_reachable:
  assumes "reachable e s3Files localFiles c"
  shows "barrier (relative_paths localFiles) c"
  using assms unfolding reachable_def
  by (induction rule: rtranclp_induct) (auto intro: barrier_initial barrier_step)

lemma keys_delete: "fst ` set (AList.delete x al) = fst ` set al - {x}"
  using delete_keys[of x al] by (metis set_map set_removeAll)

lemma finished_keys_update_Finished:
  assumes "i < length xs" "length (phases c) = length xs"
  shows "{xs ! j | j. j < length xs \<and> (phases c)[i := Finished] ! j = Finished}
         = insert (xs ! i) (finished_keys xs c)"
  using assms by (auto simp: finished_keys_def nth_list_update)

lemma finished_keys_update_other:
  assumes "i < length xs" "length (phases c) = length xs" "phases c ! i \<noteq> Finished" "p \<noteq> Finished"
  shows "{xs ! j | j. j < length xs \<and> (phases c)[i := p] ! j = Finished} = finished_keys xs c"
  using assms by (auto simp: finished_keys_def nth_list_update)

lemma claimed_initial: "claimed s3Files xs (initial s3Files xs)"
  by (auto simp: claimed_def initial_def finished_keys_def build_s3Map_keys)

lemma claimed_step:
  assumes "step e xs c c'" "claimed s3Files xs c"
  shows "claimed s3Files xs c'"
  using assms
proof (induction rule: step.induct)
  case (read_done i c)
  then have len: "length (phases c) = length xs"
    and k: "fst ` set (cmap c) = Key ` set s3Files - finished_keys xs c"
    by (simp_all add: claimed_def)
  have nf: "phases c ! i \<noteq> Finished" using read_done(2) by simp
  show ?case
  proof (cases "action_of e (map_of (cmap c) (xs ! i)) (xs ! i)")
    case Skip
    then show ?thesis
      using len k finished_keys_update_Finished[OF read_done(1) len]
      by (auto simp: claimed_def after_read_def keys_delete finished_keys_def)
  next
    case (Upload d)
    then show ?thesis
      using len k finished_keys_update_other[OF read_done(1) len nf, of "Putting d"]
      by (simp add: claimed_def after_read_def finished_keys_def)
  next
    case (Fail err)
    then show ?thesis
      using len k finished_keys_update_other[OF read_done(1) len nf, of "TaskRejected err"]
      by (simp add: claimed_def after_read_def finished_keys_def)
  qed
next
  case (put_done i c data)
  then have len: "length (phases c) = length xs"
    and k: "fst ` set (cmap c) = Key ` set s3Files - finished_keys xs c"
    by (simp_all add: claimed_def)
  have nf: "phases c ! i \<noteq> Finished" using put_done(2) by simp
  show ?case
  proof (cases "putObject e (xs ! i) data")
    case True
    then show ?thesis
      using len k finished_keys_update_Finished[OF put_done(1) len]
      by (auto simp: claimed_def after_put_def keys_delete finished_keys_def)
  next
    case False
    then show ?thesis
      using len k finished_keys_update_other[OF put_done(1) len nf, of "TaskRejected PutError"]
      by (simp add: claimed_def after_put_def finished_keys_def)
  qed
next
  case (deletes_start c)
  then show ?case by (simp add: claimed_def start_deletes_def finished_keys_def)
next
  case (delete_done k c)
  then show ?case by (simp add: claimed_def after_delete_def finished_keys_def)
qed

lemma claimed_reachable:
  assumes "reachable e s3Files localFiles c"
  shows "claimed s3Files (relative_paths localFiles) c"
  using assms unfolding reachable_def
  by (induction rule: rtranclp_induct) (auto intro: claimed_initial claimed_step)

lemma finished_keys_all:
  assumes "list_all (\<lambda>p. p = Finished) (phases c)" "length (phases c) = length xs"
  shows "finished_keys xs c = set xs"
proof -
  have "\<forall>i < length xs. phases c ! i = Finished" using assms by (simp add: list_all_length)
  then show ?thesis unfolding finished_keys_def by (fastforce simp: in_set_conv_nth)
qed




section \<open>The interleavings and \<open>main\<close> agree\<close>

lemma agrees_initial: "agrees e s3Files xs (initial s3Files xs)"
  by (simp add: agrees_def initial_def)

lemma agrees_update:
  assumes a: "agrees e s3Files xs c" and len: "length (phases c) = length xs"
    and d: "distinct xs" and i: "i < length xs"
    and p: "case p of
              Reading \<Rightarrow> False
            | Putting d \<Rightarrow> action_of e (map_of (build_s3Map s3Files) (xs ! i)) (xs ! i) = Upload d
            | Finished \<Rightarrow>
                action_of e (map_of (build_s3Map s3Files) (xs ! i)) (xs ! i) = Skip
                \<or> (\<exists>d. action_of e (map_of (build_s3Map s3Files) (xs ! i)) (xs ! i) = Upload d
                       \<and> putObject e (xs ! i) d)
            | TaskRejected err \<Rightarrow> True"
    and m: "cmap c' = cmap c \<or> cmap c' = AList.delete (xs ! i) (cmap c)"
    and ph: "phases c' = (phases c)[i := p]"
  shows "agrees e s3Files xs c'"
  unfolding agrees_def
proof (intro allI impI)
  fix j assume j: "j < length xs"
  show "case phases c' ! j of
           Reading \<Rightarrow> map_of (cmap c') (xs ! j) = map_of (build_s3Map s3Files) (xs ! j)
         | Putting d \<Rightarrow> action_of e (map_of (build_s3Map s3Files) (xs ! j)) (xs ! j) = Upload d
         | Finished \<Rightarrow>
             action_of e (map_of (build_s3Map s3Files) (xs ! j)) (xs ! j) = Skip
             \<or> (\<exists>d. action_of e (map_of (build_s3Map s3Files) (xs ! j)) (xs ! j) = Upload d
                    \<and> putObject e (xs ! j) d)
         | TaskRejected err \<Rightarrow> True"
  proof (cases "j = i")
    case True
    then show ?thesis using p i len by (cases p) (simp_all add: ph)
  next
    case False
    then have ne: "xs ! j \<noteq> xs ! i" using d i j by (simp add: nth_eq_iff_index_eq)
    have pj: "phases c' ! j = phases c ! j" using False by (simp add: ph)
    have mj: "map_of (cmap c') (xs ! j) = map_of (cmap c) (xs ! j)"
      using m ne by auto
    have "case phases c ! j of
           Reading \<Rightarrow> map_of (cmap c) (xs ! j) = map_of (build_s3Map s3Files) (xs ! j)
         | Putting d \<Rightarrow> action_of e (map_of (build_s3Map s3Files) (xs ! j)) (xs ! j) = Upload d
         | Finished \<Rightarrow>
             action_of e (map_of (build_s3Map s3Files) (xs ! j)) (xs ! j) = Skip
             \<or> (\<exists>d. action_of e (map_of (build_s3Map s3Files) (xs ! j)) (xs ! j) = Upload d
                    \<and> putObject e (xs ! j) d)
         | TaskRejected err \<Rightarrow> True"
      using a j by (simp add: agrees_def)
    then show ?thesis by (simp add: pj mj split: phase.splits)
  qed
qed

lemma agrees_same:
  "phases c' = phases c \<Longrightarrow> cmap c' = cmap c \<Longrightarrow> agrees e s3Files xs c \<Longrightarrow> agrees e s3Files xs c'"
  by (simp add: agrees_def cong: phase.case_cong)

lemma agrees_step:
  assumes "step e xs c c'" "agrees e s3Files xs c" "length (phases c) = length xs" "distinct xs"
  shows "agrees e s3Files xs c'"
  using assms
proof (induction rule: step.induct)
  case (read_done i c)
  have eq: "map_of (cmap c) (xs ! i) = map_of (build_s3Map s3Files) (xs ! i)"
    using read_done by (auto simp: agrees_def)
  show ?case
  proof (cases "action_of e (map_of (build_s3Map s3Files) (xs ! i)) (xs ! i)")
    case Skip
    show ?thesis
      by (rule agrees_update[OF read_done(3,4,5,1), of Finished])
         (simp_all add: after_read_def eq Skip)
  next
    case (Upload d)
    show ?thesis
      by (rule agrees_update[OF read_done(3,4,5,1), of "Putting d"])
         (simp_all add: after_read_def eq Upload)
  next
    case (Fail err)
    show ?thesis
      by (rule agrees_update[OF read_done(3,4,5,1), of "TaskRejected err"])
         (simp_all add: after_read_def eq Fail)
  qed
next
  case (put_done i c data)
  have a: "action_of e (map_of (build_s3Map s3Files) (xs ! i)) (xs ! i) = Upload data"
    using put_done by (auto simp: agrees_def)
  show ?case
  proof (cases "putObject e (xs ! i) data")
    case True
    show ?thesis
      by (rule agrees_update[OF put_done(3,4,5,1), of Finished])
         (simp_all add: after_put_def a True)
  next
    case False
    show ?thesis
      by (rule agrees_update[OF put_done(3,4,5,1), of "TaskRejected PutError"])
         (simp_all add: after_put_def False)
  qed
next
  case (deletes_start c)
  show ?case by (rule agrees_same[OF _ _ deletes_start(3)]) (simp_all add: start_deletes_def)
next
  case (delete_done k c)
  show ?case by (rule agrees_same[OF _ _ delete_done(2)]) (simp_all add: after_delete_def)
qed

lemma agrees_reachable:
  assumes "reachable e s3Files localFiles c" "distinct (relative_paths localFiles)"
  shows "agrees e s3Files (relative_paths localFiles) c"
  using assms(1) unfolding reachable_def
proof (induction rule: rtranclp_induct)
  case base
  show ?case by (rule agrees_initial)
next
  case (step c c')
  have "reachable e s3Files localFiles c" unfolding reachable_def by (rule step(1))
  then have len: "length (phases c) = length (relative_paths localFiles)"
    using barrier_reachable by (simp add: barrier_def)
  show ?case by (rule agrees_step[OF step(2) step(3) len assms(2)])
qed

text \<open>An interleaving that reaches the delete phase deletes what \<open>main\<close> deletes.\<close>

lemma interleaving_agrees_main:
  assumes r: "reachable e s3Files localFiles c" and d: "distinct (relative_paths localFiles)"
    and del: "deleting c"
  shows "failures (uploads (main e s3Files localFiles)) = []
       \<and> set (removing (main e s3Files localFiles)) = fst ` set (cmap c)
       \<and> {k. Removing k \<in> set (trace c)} = set (removing (main e s3Files localFiles))"
proof -
  let ?xs = "relative_paths localFiles" and ?m = "map_of (build_s3Map s3Files)"
  have b: "barrier ?xs c" using r by (rule barrier_reachable)
  have fin: "\<forall>i < length ?xs. phases c ! i = Finished"
    using b del by (simp add: barrier_def list_all_length)
  have a: "agrees e s3Files ?xs c" using r d by (rule agrees_reachable)
  have act: "action_of e (?m x) x = Skip \<or> (\<exists>dd. action_of e (?m x) x = Upload dd \<and> putObject e x dd)"
    if "x \<in> set ?xs" for x
  proof -
    from that obtain i where i: "i < length ?xs" "?xs ! i = x" by (auto simp: in_set_conv_nth)
    then show ?thesis using a fin by (auto simp: agrees_def)
  qed
  have "failures_of e ?m ?xs = []"
  proof -
    have "p \<notin> set (failures_of e ?m ?xs)" for p
    proof
      assume "p \<in> set (failures_of e ?m ?xs)"
      then obtain x err where x: "x \<in> set ?xs"
        and f: "action_of e (?m x) x = Fail err
                \<or> (\<exists>dd. action_of e (?m x) x = Upload dd \<and> \<not> putObject e x dd)"
        by (auto simp: set_failures_of)
      from act[OF x] f show False by auto
    qed
    then show ?thesis by (cases "failures_of e ?m ?xs") auto
  qed
  then have nf: "failures (upload_phase e s3Files localFiles) = []"
    by (simp add: upload_phase_closed[OF d])
  have k1: "set (removing (main e s3Files localFiles)) = Key ` set s3Files - set ?xs"
    using fold_task_no_failure[of e ?xs] nf main_removing[OF nf]
    by (simp add: upload_phase_def build_s3Map_keys)
  have c: "claimed s3Files ?xs c" using r by (rule claimed_reachable)
  have k2: "fst ` set (cmap c) = Key ` set s3Files - set ?xs"
    using c b del by (simp add: claimed_def barrier_def finished_keys_all)
  obtain pre post where tr: "trace c = pre @ map Removing (map fst (cmap c)) @ post"
    and pre: "list_all (\<lambda>ev. \<not> is_delete ev) pre" and post: "list_all is_removed post"
    using b del by (auto simp: barrier_def)
  have "Removing k \<notin> set pre" for k using pre by (auto simp: list_all_iff)
  moreover have "Removing k \<notin> set post" for k using post by (auto simp: list_all_iff)
  ultimately have k3: "{k. Removing k \<in> set (trace c)} = fst ` set (cmap c)"
    by (auto simp: tr)
  show ?thesis using nf k1 k2 k3 by simp
qed

end
